theory Spec2Isabelle
  imports Complex_Main "HOL-Library.Word" "HOL-Library.Log_Nat"
begin

chapter \<open>The wave autoencoder: sample pipeline of \<^verbatim>\<open>encoder.py\<close>\<close>

text \<open>
  The program reads a PCM wave file into a flat list of integer samples, rescales the
  samples to floats, pads and cuts them into frames of one hundredth of a second, trains
  an autoencoder on the frames and stores the latent rows with four header values. Decoding
  runs the stored rows through the decoder half, rescales to integers, clamps, and writes
  the first \<open>samps * chans\<close> values to a wave file.

  The embedding follows the source function by function. The trained network, the
  \<^verbatim>\<open>wave\<close> and \<^verbatim>\<open>struct\<close> modules and the array library are outside the repository;
  they appear here through the behaviour the source relies on, each described where it is
  defined. The source is read as Python 3, the dialect of its idioms
  (\<^verbatim>\<open>list(map(norm, out))\<close>, \<^verbatim>\<open>//\<close> for the layer sizes): text strings and byte strings
  are different types there, and adding one to the other raises \<^verbatim>\<open>TypeError\<close>.
\<close>

section \<open>Exceptions\<close>

datatype error =
    KeyError            \<comment> \<open>a sample width missing from the format table\<close>
  | StructError         \<comment> \<open>\<^verbatim>\<open>struct.error\<close>: wrong buffer size, or a value outside the format\<close>
  | IndexError          \<comment> \<open>a list or array read past its end\<close>
  | ZeroDivisionError   \<comment> \<open>\<^verbatim>\<open>%\<close> or \<^verbatim>\<open>//\<close> by zero\<close>
  | ValueError          \<comment> \<open>an array that cannot be split or concatenated\<close>
  | WaveError           \<comment> \<open>\<^verbatim>\<open>wave.Error\<close>: a header value the writer rejects\<close>
  | TypeError           \<comment> \<open>a text string where a byte string is required, or the two added\<close>
  | ModelError          \<comment> \<open>any failure inside the network library\<close>

section \<open>Binary floating point\<close>

text \<open>
  A finite float is modelled by the rational number it denotes. Every arithmetic
  operation computes the exact rational result and rounds it to \<open>p\<close> significant bits,
  to nearest with ties to even: \<open>p = 53\<close> for the 64-bit floats of the encoder's
  arrays, \<open>p = 24\<close> for the 32-bit rows a network returns by default. The range of the
  exponent is not modelled. No operation of the pipeline overflows: the encoder divides
  64-bit integers by \<open>2\<^sup>1\<^sup>5\<close>, the decoder works on values of magnitude at most 1 scaled
  by \<open>2\<^sup>1\<^sup>6\<close>. None underflows with a loss of bits either: a sum or difference of floats
  is never inexact for being small, and the products and quotients are by powers of two
  on values that stay away from the smallest exponent. Infinities and NaN do not occur
  for decoder outputs in \<open>[0, 1]\<close>.
\<close>

type_synonym float = rat

definition expo :: "rat \<Rightarrow> int" where
  \<comment> \<open>the binary exponent \<open>e\<close> of a non-zero \<open>x\<close>: \<open>2\<^sup>e \<le> \<bar>x\<bar> < 2\<^sup>e\<^sup>+\<^sup>1\<close>\<close>
  "expo x = (let (n, d) = quotient_of x;
                 e0 = bitlen \<bar>n\<bar> - bitlen d
             in if 2 powi e0 \<le> \<bar>x\<bar> then e0 else e0 - 1)"

definition rne :: "rat \<Rightarrow> int" where
  \<comment> \<open>round to the nearest integer, a tie to the even one\<close>
  "rne y = (let n = \<lfloor>y\<rfloor>; r = y - of_int n
            in if r < 1 / 2 then n
               else if 1 / 2 < r then n + 1
               else if even n then n else n + 1)"

definition fl :: "nat \<Rightarrow> rat \<Rightarrow> float" where
  \<comment> \<open>round \<open>x\<close> to \<open>p\<close> significant bits\<close>
  "fl p x = (if x = 0 then 0
             else let u = 2 powi (expo x - int p + 1)
                  in of_int (rne (x / u)) * u)"

definition binary64 :: nat where "binary64 = 53"
definition binary32 :: nat where "binary32 = 24"

definition fadd :: "nat \<Rightarrow> float \<Rightarrow> float \<Rightarrow> float" where
  "fadd p a b = fl p (a + b)"

definition fsub :: "nat \<Rightarrow> float \<Rightarrow> float \<Rightarrow> float" where
  "fsub p a b = fl p (a - b)"

definition fmul :: "nat \<Rightarrow> float \<Rightarrow> float \<Rightarrow> float" where
  "fmul p a b = fl p (a * b)"

definition fdiv :: "nat \<Rightarrow> float \<Rightarrow> float \<Rightarrow> float" where
  "fdiv p a b = fl p (a / b)"

definition astype_float :: "int \<Rightarrow> float" where
  \<comment> \<open>\<^verbatim>\<open>.astype(float)\<close> on an integer array: the nearest 64-bit float\<close>
  "astype_float s = fl binary64 (of_int s)"

definition astype_int :: "float \<Rightarrow> int" where
  \<comment> \<open>\<^verbatim>\<open>.astype(int)\<close> on a float array: the C conversion to a 64-bit integer, which
      drops the fraction; a value that does not fit gives the least 64-bit integer,
      as the conversion instruction of x86-64 does\<close>
  "astype_int x =
     (let t = (if x < 0 then \<lceil>x\<rceil> else \<lfloor>x\<rfloor>)
      in if - (2 ^ 63) \<le> t \<and> t < 2 ^ 63 then t else - (2 ^ 63))"

section \<open>Packed integers (\<^verbatim>\<open>struct\<close>)\<close>

type_synonym byte = "8 word"

datatype pystr = Str string | Bytes "byte list"

definition py_add :: "pystr \<Rightarrow> pystr \<Rightarrow> error + pystr" where
  \<comment> \<open>\<^verbatim>\<open>+\<close> on strings: both operands of the same type\<close>
  "py_add a b =
     (case a of
        Str x \<Rightarrow> (case b of Str y \<Rightarrow> Inr (Str (x @ y)) | Bytes y \<Rightarrow> Inl TypeError)
      | Bytes x \<Rightarrow> (case b of Str y \<Rightarrow> Inl TypeError | Bytes y \<Rightarrow> Inr (Bytes (x @ y))))"

datatype fmt = Fmt_b | Fmt_h | Fmt_i | Fmt_q

definition fmt_of_width :: "nat \<Rightarrow> fmt option" where
  \<comment> \<open>the table \<^verbatim>\<open>{1:'b',2:'h',3:'i',4:'i',8:'q'}\<close>\<close>
  "fmt_of_width w =
     (if w = 1 then Some Fmt_b
      else if w = 2 then Some Fmt_h
      else if w = 3 then Some Fmt_i
      else if w = 4 then Some Fmt_i
      else if w = 8 then Some Fmt_q
      else None)"

fun calcsize :: "fmt \<Rightarrow> nat" where
  "calcsize Fmt_b = 1"
| "calcsize Fmt_h = 2"
| "calcsize Fmt_i = 4"
| "calcsize Fmt_q = 8"

fun le_uint :: "byte list \<Rightarrow> int" where
  \<comment> \<open>the unsigned value of a little-endian byte string\<close>
  "le_uint [] = 0"
| "le_uint (b # bs) = uint b + 256 * le_uint bs"

definition to_signed :: "nat \<Rightarrow> int \<Rightarrow> int" where
  \<comment> \<open>two's complement reading of an unsigned value of \<open>k\<close> bytes\<close>
  "to_signed k v = (if 2 ^ (8 * k - 1) \<le> v then v - 2 ^ (8 * k) else v)"

definition unpack_one :: "fmt \<Rightarrow> byte list \<Rightarrow> int" where
  "unpack_one c bs = to_signed (calcsize c) (le_uint bs)"

primrec unpack_items :: "fmt \<Rightarrow> nat \<Rightarrow> byte list \<Rightarrow> int list" where
  "unpack_items c 0 s = []"
| "unpack_items c (Suc n) s =
     unpack_one c (take (calcsize c) s) # unpack_items c n (drop (calcsize c) s)"

definition struct_unpack :: "nat \<Rightarrow> fmt \<Rightarrow> pystr \<Rightarrow> error + int list" where
  \<comment> \<open>\<^verbatim>\<open>struct.unpack('<{n}{c}', s)\<close>: the buffer must be a byte string of exactly the
      format's size\<close>
  "struct_unpack n c s =
     (case s of
        Str x \<Rightarrow> Inl TypeError
      | Bytes b \<Rightarrow>
          if length b \<noteq> n * calcsize c then Inl StructError else Inr (unpack_items c n b))"

definition le_bytes :: "nat \<Rightarrow> int \<Rightarrow> byte list" where
  \<comment> \<open>the low \<open>k\<close> bytes of \<open>v\<close> in two's complement, least significant first\<close>
  "le_bytes k v = map (\<lambda>i. word_of_int (v div 256 ^ i)) [0..<k]"

definition struct_pack :: "fmt \<Rightarrow> int \<Rightarrow> error + byte list" where
  \<comment> \<open>\<^verbatim>\<open>struct.pack('<{c}', v)\<close>: a value outside the format's range is an error\<close>
  "struct_pack c v =
     (if - (2 ^ (8 * calcsize c - 1)) \<le> v \<and> v < 2 ^ (8 * calcsize c - 1)
      then Inr (le_bytes (calcsize c) v)
      else Inl StructError)"

section \<open>Reading a wave file\<close>

text \<open>
  An opened \<^verbatim>\<open>Wave_read\<close> object: the four header values and the bytes of the data
  chunk. \<^verbatim>\<open>readframes(n)\<close> returns the next \<open>n\<close> frames, or what is left of the chunk
  when it is shorter, and moves the read position: the position is the list of bytes
  not yet read.
\<close>

record wave_read =
  nchannels :: nat
  nframes :: nat
  sampwidth :: nat
  framerate :: nat
  frames_data :: "byte list"

definition readframes :: "wave_read \<Rightarrow> nat \<Rightarrow> byte list \<Rightarrow> byte list \<times> byte list" where
  "readframes f n rest =
     (let k = n * (nchannels f * sampwidth f) in (take k rest, drop k rest))"

fun pad_frame :: "nat list \<Rightarrow> byte list \<Rightarrow> pystr \<Rightarrow> error + pystr" where
  \<comment> \<open>the inner loop: \<^verbatim>\<open>for c in range(0,3*chans,3): s += '\0'+fr[c:(c+3)]\<close>, where
      \<^verbatim>\<open>'\0'\<close> is a text string and the slice of \<^verbatim>\<open>fr\<close> a byte string\<close>
  "pad_frame [] fr s = Inr s"
| "pad_frame (c # cs) fr s =
     (case py_add (Str [CHR 0x00]) (Bytes (take 3 (drop c fr))) of
        Inl e \<Rightarrow> Inl e
      | Inr t \<Rightarrow>
          (case py_add s t of
             Inl e \<Rightarrow> Inl e
           | Inr s' \<Rightarrow> pad_frame cs fr s'))"

primrec read_width3 :: "wave_read \<Rightarrow> nat \<Rightarrow> byte list \<Rightarrow> pystr \<Rightarrow> error + pystr" where
  \<comment> \<open>the outer loop: \<^verbatim>\<open>for k in range(samps): fr = f.readframes(1); ...\<close>\<close>
  "read_width3 f 0 rest s = Inr s"
| "read_width3 f (Suc k) rest s =
     (let (fr, rest') = readframes f 1 rest
      in case pad_frame (map (\<lambda>j. 3 * j) [0..<nchannels f]) fr s of
           Inl e \<Rightarrow> Inl e
         | Inr s' \<Rightarrow> read_width3 f k rest' s')"

definition dataFromWave :: "wave_read \<Rightarrow> error + (int list \<times> nat \<times> nat \<times> nat \<times> nat)" where
  "dataFromWave f =
     (let chans = nchannels f;
          samps = nframes f;
          width = sampwidth f;
          rate = framerate f
      in case (if width = 3 then read_width3 f samps (frames_data f) (Str [])
               else Inr (Bytes (fst (readframes f samps (frames_data f))))) of
           Inl e \<Rightarrow> Inl e
         | Inr s \<Rightarrow>
             (case fmt_of_width width of
                None \<Rightarrow> Inl KeyError
              | Some c \<Rightarrow>
                  (case struct_unpack (samps * chans) c s of
                     Inl e \<Rightarrow> Inl e
                   | Inr x \<Rightarrow>
                       Inr (if width = 3 then map (\<lambda>k. drop_bit 8 k) x else x,
                            chans, samps, width, rate))))"

section \<open>Writing a wave file\<close>

text \<open>
  The writer of the \<^verbatim>\<open>wave\<close> module, as far as \<open>dataToWave\<close> drives it. The setters raise
  \<^verbatim>\<open>wave.Error\<close> for a channel count below 1, a sample width outside 1..4 and a frame
  rate that is not positive. The header is packed by the first \<^verbatim>\<open>writeframesraw\<close>, or by
  \<^verbatim>\<open>close\<close> when nothing was written, with the format \<^verbatim>\<open><L4s4sLHHLLHH4s\<close>: a value
  that does not fit its unsigned 16-bit or 32-bit field raises \<^verbatim>\<open>struct.error\<close>. On
  \<^verbatim>\<open>close\<close> the two length fields are packed again when more was written than the header
  announced. An exception leaves the function without a result; what reached the file
  before it is not part of the model.
\<close>

record wave_write =
  w_nchannels :: nat
  w_sampwidth :: nat
  w_framerate :: nat
  w_frames :: "byte list list"

record wave_writer =
  ww_nchannels :: nat
  ww_sampwidth :: nat
  ww_framerate :: nat
  ww_headerwritten :: bool
  ww_datalength :: nat
  ww_datawritten :: nat
  ww_frames :: "byte list list"

definition fits_unsigned :: "nat \<Rightarrow> nat \<Rightarrow> bool" where
  \<comment> \<open>a value that \<^verbatim>\<open>struct.pack\<close> accepts for an unsigned field of that many bits\<close>
  "fits_unsigned bits v \<longleftrightarrow> int v < 2 ^ bits"

definition header_fits :: "nat \<Rightarrow> nat \<Rightarrow> nat \<Rightarrow> nat \<Rightarrow> bool" where
  \<comment> \<open>the fields of the header: total length, frame rate and byte rate in 32 bits,
      channel count, block size and bits per sample in 16 bits\<close>
  "header_fits chans width rate datalength \<longleftrightarrow>
     fits_unsigned 32 (36 + datalength) \<and> fits_unsigned 16 chans \<and> fits_unsigned 32 rate
     \<and> fits_unsigned 32 (chans * rate * width) \<and> fits_unsigned 16 (chans * width)
     \<and> fits_unsigned 16 (width * 8)"

definition write_header :: "wave_writer \<Rightarrow> nat \<Rightarrow> error + wave_writer" where
  \<comment> \<open>\<^verbatim>\<open>_write_header(initlength)\<close>\<close>
  "write_header obj initlength =
     (let nfr = initlength div (ww_nchannels obj * ww_sampwidth obj);
          datalength = nfr * ww_nchannels obj * ww_sampwidth obj
      in if header_fits (ww_nchannels obj) (ww_sampwidth obj) (ww_framerate obj) datalength
         then Inr (obj\<lparr>ww_headerwritten := True, ww_datalength := datalength\<rparr>)
         else Inl StructError)"

definition ensure_header_written :: "wave_writer \<Rightarrow> nat \<Rightarrow> error + wave_writer" where
  "ensure_header_written obj datasize =
     (if ww_headerwritten obj then Inr obj
      else if ww_nchannels obj = 0 then Inl WaveError
      else if ww_sampwidth obj = 0 then Inl WaveError
      else if ww_framerate obj = 0 then Inl WaveError
      else write_header obj datasize)"

definition writeframesraw :: "wave_writer \<Rightarrow> byte list \<Rightarrow> error + wave_writer" where
  "writeframesraw obj bs =
     (case ensure_header_written obj (length bs) of
        Inl e \<Rightarrow> Inl e
      | Inr obj' \<Rightarrow>
          Inr (obj'\<lparr>ww_frames := ww_frames obj' @ [bs],
                    ww_datawritten := ww_datawritten obj' + length bs\<rparr>))"

definition patchheader :: "wave_writer \<Rightarrow> error + wave_writer" where
  "patchheader obj =
     (if ww_datawritten obj = ww_datalength obj then Inr obj
      else if fits_unsigned 32 (36 + ww_datawritten obj)
      then Inr (obj\<lparr>ww_datalength := ww_datawritten obj\<rparr>)
      else Inl StructError)"

definition wave_close :: "wave_writer \<Rightarrow> error + wave_write" where
  \<comment> \<open>\<^verbatim>\<open>obj.close()\<close>, giving the file as it stands\<close>
  "wave_close obj =
     (case ensure_header_written obj 0 of
        Inl e \<Rightarrow> Inl e
      | Inr obj' \<Rightarrow>
          (case (if ww_datalength obj' \<noteq> ww_datawritten obj' then patchheader obj'
                 else Inr obj') of
             Inl e \<Rightarrow> Inl e
           | Inr obj'' \<Rightarrow>
               Inr \<lparr>w_nchannels = ww_nchannels obj'', w_sampwidth = ww_sampwidth obj'',
                    w_framerate = ww_framerate obj'', w_frames = ww_frames obj''\<rparr>))"

fun write_loop :: "fmt \<Rightarrow> int list \<Rightarrow> nat list \<Rightarrow> wave_writer \<Rightarrow> error + wave_writer" where
  \<comment> \<open>\<^verbatim>\<open>for i in range(samps*chans): obj.writeframesraw(struct.pack(packstr, data[i]))\<close>\<close>
  "write_loop c data [] obj = Inr obj"
| "write_loop c data (i # is) obj =
     (if length data \<le> i then Inl IndexError
      else case struct_pack c (data ! i) of
             Inl e \<Rightarrow> Inl e
           | Inr b \<Rightarrow>
               (case writeframesraw obj b of
                  Inl e \<Rightarrow> Inl e
                | Inr obj' \<Rightarrow> write_loop c data is obj'))"

definition dataToWave :: "int list \<Rightarrow> nat \<Rightarrow> nat \<Rightarrow> nat \<Rightarrow> nat \<Rightarrow> error + wave_write" where
  "dataToWave data chans samps width rate =
     (if chans < 1 then Inl WaveError
      else if width < 1 \<or> 4 < width then Inl WaveError
      else if rate = 0 then Inl WaveError
      else case fmt_of_width width of
             None \<Rightarrow> Inl KeyError
           | Some c \<Rightarrow>
               (case write_loop c data [0..<samps * chans]
                       \<lparr>ww_nchannels = chans, ww_sampwidth = width, ww_framerate = rate,
                        ww_headerwritten = False, ww_datalength = 0, ww_datawritten = 0,
                        ww_frames = []\<rparr> of
                  Inl e \<Rightarrow> Inl e
                | Inr obj \<Rightarrow> wave_close obj))"

section \<open>The clamp\<close>

definition norm_clamp :: "int \<Rightarrow> int" where
  \<comment> \<open>the source's \<^verbatim>\<open>norm\<close>\<close>
  "norm_clamp x = (if x < - 32768 then - 32768 else if 32767 < x then 32767 else x)"

section \<open>Encoding\<close>

definition rescale :: "int list \<Rightarrow> float list" where
  \<comment> \<open>\<^verbatim>\<open>data.astype(float) / float(pow(2,15))\<close>, \<^verbatim>\<open>data += 1.0\<close>, \<^verbatim>\<open>data / 2.0\<close>\<close>
  "rescale data =
     map (\<lambda>s. fdiv binary64 (fadd binary64 (fdiv binary64 (astype_float s) 32768) 1) 2) data"

definition np_split :: "'a list \<Rightarrow> nat \<Rightarrow> error + 'a list list" where
  \<comment> \<open>\<^verbatim>\<open>np.split(ary, sections)\<close>: equal consecutive sections, or an error\<close>
  "np_split ary sections =
     (if sections = 0 then Inl ZeroDivisionError
      else if length ary mod sections \<noteq> 0 then Inl ValueError
      else let m = length ary div sections
           in Inr (map (\<lambda>i. take m (drop (i * m) ary)) [0..<sections]))"

definition padAndSplit :: "float list \<Rightarrow> nat \<Rightarrow> error + float list list" where
  \<comment> \<open>the padding and framing lines of \<^verbatim>\<open>encode\<close>\<close>
  "padAndSplit data rate =
     (if rate = 0 then Inl ZeroDivisionError
      else let n_in = length data;
               p_size = n_in + (rate - n_in mod rate);
               padded = data @ drop n_in (replicate p_size 0)
           in np_split padded (p_size div rate))"

text \<open>
  The network is an external capability. \<open>fit rate inputs\<close> stands for building the
  layers for frames of length \<open>rate\<close>, compiling and training on \<open>inputs\<close>; it yields the
  two prediction functions, each from an array of rows to an array of rows.
\<close>

record autoencoder =
  encoder :: "float list list \<Rightarrow> float list list"
  decoder :: "float list list \<Rightarrow> float list list"

record container =
  data :: "float list list"
  params :: "nat list"

definition encode_inputs :: "wave_read \<Rightarrow> error + (float list list \<times> nat \<times> nat list)" where
  \<comment> \<open>\<^verbatim>\<open>encode\<close> up to \<^verbatim>\<open>inputs = np.array(chunks)\<close>\<close>
  "encode_inputs in_file =
     (case dataFromWave in_file of
        Inl e \<Rightarrow> Inl e
      | Inr (samples, chans, samps, width, samp_rate) \<Rightarrow>
          (let rate = samp_rate div 100;
               scaled = rescale samples
           in case padAndSplit scaled rate of
                Inl e \<Rightarrow> Inl e
              | Inr chunks \<Rightarrow> Inr (chunks, rate, [chans, samps, width, samp_rate])))"

definition encode ::
  "(nat \<Rightarrow> float list list \<Rightarrow> error + autoencoder) \<Rightarrow> wave_read \<Rightarrow>
     error + (container \<times> (float list list \<Rightarrow> float list list))" where
  "encode fit in_file =
     (case encode_inputs in_file of
        Inl e \<Rightarrow> Inl e
      | Inr (inputs, rate, ps) \<Rightarrow>
          (case fit rate inputs of
             Inl e \<Rightarrow> Inl e
           | Inr m \<Rightarrow> Inr (\<lparr>data = encoder m inputs, params = ps\<rparr>, decoder m)))"

section \<open>Decoding\<close>

definition np_index :: "'a list \<Rightarrow> nat \<Rightarrow> error + 'a" where
  "np_index xs i = (if i < length xs then Inr (xs ! i) else Inl IndexError)"

definition descale :: "nat \<Rightarrow> float list \<Rightarrow> int list" where
  \<comment> \<open>\<^verbatim>\<open>(((out * 2.0) - 1.0) * float(pow(2,15))).astype(int)\<close> at the precision of \<open>out\<close>\<close>
  "descale p out = map (\<lambda>v. astype_int (fmul p (fsub p (fmul p v 2) 1) 32768)) out"

definition decode_params :: "container \<Rightarrow> error + (nat \<times> nat \<times> nat \<times> nat)" where
  "decode_params ins =
     (case np_index (params ins) 0 of Inl e \<Rightarrow> Inl e | Inr chans \<Rightarrow>
      case np_index (params ins) 1 of Inl e \<Rightarrow> Inl e | Inr samps \<Rightarrow>
      case np_index (params ins) 2 of Inl e \<Rightarrow> Inl e | Inr width \<Rightarrow>
      case np_index (params ins) 3 of Inl e \<Rightarrow> Inl e | Inr samp_rate \<Rightarrow>
        Inr (chans, samps, width, samp_rate))"

definition spec_inverse :: "nat \<Rightarrow> float \<Rightarrow> int" where
  \<comment> \<open>the inverse as the specification words it, for comparison with \<open>descale\<close>:
      \<^verbatim>\<open>s = round((f * 2.0 - 1.0) * 32768.0)\<close>, then the clamp\<close>
  "spec_inverse p f = norm_clamp (rne (fmul p (fsub p (fmul p f 2) 1) 32768))"

definition reconstruct :: "nat \<Rightarrow> float list list \<Rightarrow> error + int list" where
  \<comment> \<open>\<^verbatim>\<open>np.concatenate\<close>, the rescaling, and \<^verbatim>\<open>list(map(norm, out))\<close>\<close>
  "reconstruct p outputs =
     (if outputs = [] then Inl ValueError
      else Inr (map norm_clamp (descale p (concat outputs))))"

definition decode ::
  "nat \<Rightarrow> container \<Rightarrow> (float list list \<Rightarrow> float list list) \<Rightarrow> error + wave_write" where
  "decode p ins dec =
     (case decode_params ins of
        Inl e \<Rightarrow> Inl e
      | Inr (chans, samps, width, samp_rate) \<Rightarrow>
          (case reconstruct p (dec (data ins)) of
             Inl e \<Rightarrow> Inl e
           | Inr out \<Rightarrow> dataToWave out chans samps width samp_rate))"

section \<open>Encoding followed by decoding\<close>

definition round_trip ::
  "nat \<Rightarrow> (nat \<Rightarrow> float list list \<Rightarrow> error + autoencoder) \<Rightarrow> wave_read \<Rightarrow>
     error + wave_write" where
  \<comment> \<open>\<^verbatim>\<open>encode\<close> of a stream, then \<^verbatim>\<open>decode\<close> of the container and decoder it saved\<close>
  "round_trip p fit in_file =
     (case encode fit in_file of
        Inl e \<Rightarrow> Inl e
      | Inr (ins, dec) \<Rightarrow> decode p ins dec)"

definition saturated_fit :: "nat \<Rightarrow> float list list \<Rightarrow> error + autoencoder" where
  \<comment> \<open>an example network for frames of length \<open>rate\<close>: the latent row has a quarter of
      the frame's length, and the output layer is saturated at \<open>1.0\<close>\<close>
  "saturated_fit rate inputs =
     Inr \<lparr>encoder = map (\<lambda>row. take (rate div 4) row),
          decoder = map (\<lambda>z. replicate rate 1)\<rparr>"

chapter \<open>Auxiliary facts\<close>

section \<open>Padding and framing\<close>

lemma concat_slices:
  "length ys = k * m \<Longrightarrow> concat (map (\<lambda>i. take m (drop (i * m) ys)) [0..<k]) = ys"
proof (induction k arbitrary: ys)
  case 0
  then show ?case by simp
next
  case (Suc k)
  have len: "length (drop m ys) = k * m"
    using Suc.prems by simp
  have "map (\<lambda>i. take m (drop (i * m) ys)) [0..<Suc k] =
        take m ys # map (\<lambda>i. take m (drop (i * m) (drop m ys))) [0..<k]"
    by (simp add: upt_conv_Cons map_Suc_upt [symmetric] add.commute del: upt_Suc)
  then show ?case
    using Suc.IH [OF len] by simp
qed

lemma padded_size:
  fixes n L :: nat
  assumes "0 < L"
  shows "n + (L - n mod L) = (n div L + 1) * L"
proof -
  have "n mod L < L" using assms by simp
  then have "n + (L - n mod L) = (n - n mod L) + L"
    by (simp add: mod_less_eq_dividend)
  also have "n - n mod L = n div L * L"
    by (simp add: minus_mod_eq_div_mult)
  finally show ?thesis by simp
qed

lemma less_padded:
  fixes n L :: nat
  assumes "0 < L"
  shows "n < (n div L + 1) * L"
proof -
  have "n mod L < L" using assms by simp
  then have "n < n + (L - n mod L)" by simp
  also have "\<dots> = (n div L + 1) * L"
    by (rule padded_size [OF assms])
  finally show ?thesis .
qed

lemma length_concat_uniform:
  "\<forall>r \<in> set rows. length r = L \<Longrightarrow> length (concat rows) = length rows * L"
  by (induction rows) simp_all

lemma padAndSplit_eq:
  assumes "0 < L"
  shows "padAndSplit xs L =
    Inr (map (\<lambda>i. take L (drop (i * L) (xs @ replicate (L - length xs mod L) 0)))
          [0..<length xs div L + 1])"
proof -
  define n where "n = length xs"
  define k where "k = n div L + 1"
  have k: "0 < k" by (simp add: k_def)
  have ps: "n + (L - n mod L) = k * L"
    unfolding k_def by (rule padded_size [OF assms])
  have d: "k * L div L = k"
    using assms by simp
  have m: "k * L div k = L"
    using k by simp
  have r: "k * L mod k = 0"
    by simp
  have pad: "drop n (replicate (k * L) (0::rat)) = replicate (L - n mod L) 0"
    by (simp add: ps [symmetric])
  have len: "length (xs @ replicate (L - n mod L) (0::rat)) = k * L"
    using ps by (simp add: n_def)
  have "padAndSplit xs L =
    Inr (map (\<lambda>i. take L (drop (i * L) (xs @ replicate (L - n mod L) 0))) [0..<k])"
    using assms k
    unfolding padAndSplit_def np_split_def Let_def n_def [symmetric] ps d pad len m r
    by simp
  then show ?thesis
    by (simp only: k_def n_def)
qed

lemma padAndSplit_props:
  assumes "0 < L"
  shows "\<exists>frames. padAndSplit xs L = Inr frames
           \<and> length frames = length xs div L + 1
           \<and> (\<forall>fr \<in> set frames. length fr = L)
           \<and> concat frames = xs @ replicate (L - length xs mod L) 0
           \<and> length (concat frames) = length xs + (L - length xs mod L)
           \<and> L dvd length (concat frames)
           \<and> length xs < length (concat frames)
           \<and> (L dvd length xs \<longrightarrow> last frames = replicate L 0)"
proof -
  define n where "n = length xs"
  define padded where "padded = xs @ replicate (L - n mod L) (0::rat)"
  define k where "k = n div L + 1"
  define frames where "frames = map (\<lambda>i. take L (drop (i * L) padded)) [0..<k]"
  note L = assms
  have ps: "n + (L - n mod L) = k * L"
    unfolding k_def by (rule padded_size [OF L])
  have len: "length padded = k * L"
    using ps by (simp add: padded_def n_def)
  have 1: "padAndSplit xs L = Inr frames"
    by (simp only: padAndSplit_eq [OF L] frames_def padded_def n_def k_def)
  have 2: "length frames = n div L + 1"
    by (simp add: frames_def k_def)
  have 3: "\<forall>fr \<in> set frames. length fr = L"
  proof
    fix fr assume "fr \<in> set frames"
    then obtain i where "i \<in> set [0..<k]" and fr: "fr = take L (drop (i * L) padded)"
      unfolding frames_def set_map by blast
    then have i: "i < k"
      by (simp only: set_upt atLeastLessThan_iff)
    from i have "Suc i \<le> k" by simp
    then have "Suc i * L \<le> k * L"
      by (rule mult_le_mono1)
    then have "L \<le> length padded - i * L"
      by (simp add: len)
    then show "length fr = L" by (simp add: fr)
  qed
  have 4: "concat frames = padded"
    unfolding frames_def by (rule concat_slices [OF len])
  have 5: "length (concat frames) = n + (L - n mod L)"
    by (simp add: 4 padded_def n_def)
  have 6: "L dvd length (concat frames)"
    by (simp add: 4 len)
  have "n mod L < L" using L by simp
  then have 7: "n < length (concat frames)"
    by (simp add: 5)
  have 8: "last frames = replicate L 0" if "L dvd n"
  proof -
    from that have z: "length xs mod L = 0" by (simp add: n_def)
    from that L have nq: "length xs div L * L = length xs" by (simp add: n_def)
    have "last frames = take L (drop (n div L * L) padded)"
      by (simp add: frames_def last_map k_def)
    also have "\<dots> = take L (drop (length xs) (xs @ replicate L 0))"
      by (simp only: nq padded_def z n_def diff_zero)
    also have "\<dots> = replicate L 0"
      by simp
    finally show ?thesis .
  qed
  from 1 2 3 4 5 6 7 8 show ?thesis
    unfolding padded_def n_def by blast
qed

lemma padAndSplit_Inr:
  assumes "padAndSplit xs L = Inr frames"
  shows "0 < L"
    and "length frames = length xs div L + 1"
    and "\<forall>fr \<in> set frames. length fr = L"
    and "concat frames = xs @ replicate (L - length xs mod L) 0"
proof -
  show L: "0 < L"
    using assms by (cases "L = 0") (simp_all add: padAndSplit_def)
  from padAndSplit_props [OF L, of xs] assms
  show "length frames = length xs div L + 1"
    and "\<forall>fr \<in> set frames. length fr = L"
    and "concat frames = xs @ replicate (L - length xs mod L) 0"
    by auto
qed

section \<open>Rounding\<close>

lemma two_powi_bitlen:
  fixes a :: int
  assumes "0 < a"
  shows "(2::rat) powi (bitlen a - 1) \<le> of_int a" and "of_int a < (2::rat) powi bitlen a"
proof -
  from assms have b1: "1 \<le> bitlen a" by (auto simp: bitlen_alt_def)
  from bitlen_bounds [OF assms]
  have lo: "2 ^ nat (bitlen a - 1) \<le> a" and hi: "a < 2 ^ nat (bitlen a)" by auto
  have "(of_int (2 ^ nat (bitlen a - 1)) :: rat) \<le> of_int a"
    using lo by (simp only: of_int_le_iff)
  then show "(2::rat) powi (bitlen a - 1) \<le> of_int a"
    using b1 by (simp add: power_int_nonneg_exp)
  have "(of_int a :: rat) < of_int (2 ^ nat (bitlen a))"
    using hi by (simp only: of_int_less_iff)
  then show "of_int a < (2::rat) powi bitlen a"
    using b1 by (simp add: power_int_nonneg_exp)
qed

lemma two_powi_less_D:
  assumes "(2::rat) powi a < 2 powi b"
  shows "a < b"
proof (rule ccontr)
  assume "\<not> a < b"
  then have "b \<le> a" by simp
  then have "(2::rat) powi b \<le> 2 powi a"
    by (rule power_int_increasing) simp
  with assms show False by simp
qed

lemma expo_bounds:
  assumes "x \<noteq> 0"
  shows "2 powi expo x \<le> \<bar>x\<bar>" and "\<bar>x\<bar> < 2 powi (expo x + 1)"
proof -
  obtain p q where pq: "quotient_of x = (p, q)" by (cases "quotient_of x")
  then have q: "0 < q" and x: "x = of_int p / of_int q"
    by (auto dest: quotient_of_denom_pos quotient_of_div)
  from x assms have p: "0 < \<bar>p\<bar>" by auto
  define e0 where "e0 = bitlen \<bar>p\<bar> - bitlen q"
  have ax: "\<bar>x\<bar> = of_int \<bar>p\<bar> / of_int q"
    using q by (simp add: x)
  have qpos: "(0::rat) < of_int q" using q by simp
  note P = two_powi_bitlen [OF p] and Q = two_powi_bitlen [OF q]
  have lo: "2 powi (e0 - 1) \<le> \<bar>x\<bar>"
  proof -
    have "e0 - 1 = (bitlen \<bar>p\<bar> - 1) - bitlen q"
      by (simp add: e0_def)
    then have "(2::rat) powi (e0 - 1) = 2 powi (bitlen \<bar>p\<bar> - 1) / 2 powi bitlen q"
      by (simp only: power_int_diff [of "2::rat", simplified])
    also have "\<dots> \<le> of_int \<bar>p\<bar> / of_int q"
      using P(1) Q(2) qpos by (intro frac_le) auto
    finally show ?thesis by (simp only: ax)
  qed
  have hi: "\<bar>x\<bar> < 2 powi (e0 + 1)"
  proof -
    have "of_int \<bar>p\<bar> / of_int q < (2::rat) powi bitlen \<bar>p\<bar> / 2 powi (bitlen q - 1)"
      using P(2) Q(1) qpos by (intro frac_less) auto
    also have "\<dots> = 2 powi (bitlen \<bar>p\<bar> - (bitlen q - 1))"
      by (simp only: power_int_diff [of "2::rat", simplified])
    also have "bitlen \<bar>p\<bar> - (bitlen q - 1) = e0 + 1"
      by (simp add: e0_def)
    finally show ?thesis by (simp only: ax)
  qed
  have e: "expo x = (if 2 powi e0 \<le> \<bar>x\<bar> then e0 else e0 - 1)"
    by (simp add: expo_def pq e0_def Let_def)
  show "2 powi expo x \<le> \<bar>x\<bar>"
    using lo by (simp add: e)
  show "\<bar>x\<bar> < 2 powi (expo x + 1)"
    using hi by (auto simp add: e not_le)
qed

lemma rne_of_int [simp]: "rne (of_int n) = n"
  by (simp add: rne_def)

lemma fl_exact:
  assumes "\<bar>k\<bar> < 2 ^ p"
  shows "fl p (of_int k * 2 powi e) = of_int k * 2 powi e"
proof (cases "k = 0")
  case True
  then show ?thesis by (simp add: fl_def)
next
  case False
  define x :: rat where "x = of_int k * 2 powi e"
  have x0: "x \<noteq> 0" using False by (simp add: x_def)
  have "2 powi expo x \<le> \<bar>x\<bar>" by (rule expo_bounds(1) [OF x0])
  also have "\<bar>x\<bar> = of_int \<bar>k\<bar> * 2 powi e"
    by (simp add: x_def abs_mult)
  also have "\<dots> < of_int (2 ^ p) * 2 powi e"
    using assms by (intro mult_strict_right_mono) (simp_all only: of_int_less_iff zero_less_power_int zero_less_numeral)
  also have "\<dots> = 2 powi (int p + e)"
    by (simp add: power_int_add)
  finally have "(2::rat) powi expo x < 2 powi (int p + e)" .
  then have "expo x < int p + e"
    by (rule two_powi_less_D)
  then have "0 \<le> e - (expo x - int p + 1)" by simp
  then obtain d :: nat where d: "e - (expo x - int p + 1) = int d"
    by (rule nonneg_int_cases)
  define u :: rat where "u = 2 powi (expo x - int p + 1)"
  have upos: "0 < u" by (simp add: u_def)
  have "x / u = of_int k * (2 powi e / 2 powi (expo x - int p + 1))"
    by (simp add: x_def u_def)
  also have "2 powi e / 2 powi (expo x - int p + 1) = (2::rat) powi (e - (expo x - int p + 1))"
    by (simp add: power_int_diff)
  also have "\<dots> = 2 ^ d" by (simp only: d power_int_of_nat)
  finally have "x / u = of_int (k * 2 ^ d)" by simp
  then have "of_int (rne (x / u)) * u = x"
    using upos by (simp only: rne_of_int) (simp add: field_simps)
  then show ?thesis
    using x0 by (simp add: fl_def Let_def flip: x_def u_def)
qed

lemma fl_dyadic:
  assumes "\<bar>k\<bar> < 2 ^ p"
  shows "fl p (of_int k / 2 ^ n) = of_int k / 2 ^ n"
proof -
  have "(of_int k / 2 ^ n :: rat) = of_int k * 2 powi (- int n)"
    by (simp add: power_int_minus field_simps)
  then show ?thesis
    using fl_exact [OF assms, of "- int n"] by simp
qed

lemma fl_of_int:
  assumes "\<bar>k\<bar> < 2 ^ p"
  shows "fl p (of_int k) = of_int k"
  using fl_dyadic [OF assms, of 0] by simp

lemma rne_near: "\<bar>of_int (rne y) - y\<bar> \<le> 1"
proof -
  have "of_int \<lfloor>y\<rfloor> \<le> y" and "y < of_int \<lfloor>y\<rfloor> + 1"
    using floor_correct [of y] by simp_all
  then show ?thesis
    by (auto simp: rne_def Let_def)
qed

lemma fl_bound: "\<bar>fl p x\<bar> \<le> 3 * \<bar>x\<bar>"
proof (cases "x = 0")
  case True
  then show ?thesis by (simp add: fl_def)
next
  case False
  define u :: rat where "u = 2 powi (expo x - int p + 1)"
  have upos: "0 < u" by (simp add: u_def)
  have "u \<le> 2 powi (expo x + 1)"
    unfolding u_def by (rule power_int_increasing) simp_all
  also have "\<dots> = 2 * 2 powi expo x"
    by (simp add: power_int_add)
  also have "\<dots> \<le> 2 * \<bar>x\<bar>"
    using expo_bounds(1) [OF False] by simp
  finally have u: "u \<le> 2 * \<bar>x\<bar>" .
  have "of_int (rne (x / u)) * u - x = (of_int (rne (x / u)) - x / u) * u"
    using upos by (simp add: field_simps)
  then have "\<bar>of_int (rne (x / u)) * u - x\<bar> = \<bar>of_int (rne (x / u)) - x / u\<bar> * \<bar>u\<bar>"
    by (simp only: abs_mult)
  also have "\<bar>u\<bar> = u"
    using upos by simp
  finally have "\<bar>of_int (rne (x / u)) * u - x\<bar> = \<bar>of_int (rne (x / u)) - x / u\<bar> * u" .
  also have "\<bar>of_int (rne (x / u)) - x / u\<bar> * u \<le> 1 * u"
    using rne_near [of "x / u"] upos by (intro mult_right_mono) simp_all
  finally have "\<bar>of_int (rne (x / u)) * u - x\<bar> \<le> u" by simp
  then have "\<bar>of_int (rne (x / u)) * u\<bar> \<le> \<bar>x\<bar> + u" by linarith
  with u have "\<bar>of_int (rne (x / u)) * u\<bar> \<le> 3 * \<bar>x\<bar>" by linarith
  then show ?thesis
    using False by (simp add: fl_def Let_def flip: u_def)
qed

section \<open>Rescaling and its inverse\<close>

lemma forward_exact:
  assumes "\<bar>s\<bar> < 2 ^ 52"
  shows "fdiv binary64 (fadd binary64 (fdiv binary64 (astype_float s) 32768) 1) 2
           = (of_int s + 32768) / 65536"
proof -
  from assms have s: "\<bar>s\<bar> < 2 ^ 53" by simp
  from assms have s': "\<bar>s + 32768\<bar> < 2 ^ 53" by simp
  have a: "astype_float s = of_int s"
    using fl_of_int [OF s] by (simp add: astype_float_def binary64_def)
  have b: "fdiv binary64 (of_int s) 32768 = of_int s / 2 ^ 15"
    using fl_dyadic [OF s, of 15] by (simp add: fdiv_def binary64_def)
  have "of_int s / 2 ^ 15 + 1 = (of_int (s + 32768) / 2 ^ 15 :: rat)"
    by (simp add: field_simps)
  then have "fadd binary64 (of_int s / 2 ^ 15) 1 = fl 53 (of_int (s + 32768) / 2 ^ 15)"
    by (simp only: fadd_def binary64_def)
  also have "\<dots> = of_int (s + 32768) / 2 ^ 15"
    by (rule fl_dyadic [OF s'])
  finally have c: "fadd binary64 (of_int s / 2 ^ 15) 1 = of_int (s + 32768) / 2 ^ 15" .
  have "of_int (s + 32768) / 2 ^ 15 / 2 = (of_int (s + 32768) / 2 ^ 16 :: rat)"
    by simp
  then have "fdiv binary64 (of_int (s + 32768) / 2 ^ 15) 2 = fl 53 (of_int (s + 32768) / 2 ^ 16)"
    by (simp only: fdiv_def binary64_def)
  also have "\<dots> = of_int (s + 32768) / 2 ^ 16"
    by (rule fl_dyadic [OF s'])
  finally have d: "fdiv binary64 (of_int (s + 32768) / 2 ^ 15) 2 = of_int (s + 32768) / 2 ^ 16" .
  show ?thesis
    by (simp only: a b c d) simp
qed

lemma inverse_exact:
  assumes "- 32768 \<le> s" "s \<le> 32768" "17 \<le> p"
  shows "fmul p (fsub p (fmul p ((of_int s + 32768) / 65536) 2) 1) 32768 = of_int s"
proof -
  have "(2::int) ^ 17 \<le> 2 ^ p"
    using assms(3) by (intro power_increasing) simp_all
  with assms have s: "\<bar>s\<bar> < 2 ^ p" and s': "\<bar>s + 32768\<bar> < 2 ^ p" by simp_all
  have "(of_int s + 32768) / 65536 * 2 = (of_int (s + 32768) / 2 ^ 15 :: rat)"
    by simp
  then have "fmul p ((of_int s + 32768) / 65536) 2 = fl p (of_int (s + 32768) / 2 ^ 15)"
    by (simp only: fmul_def)
  also have "\<dots> = of_int (s + 32768) / 2 ^ 15"
    by (rule fl_dyadic [OF s'])
  finally have e: "fmul p ((of_int s + 32768) / 65536) 2 = of_int (s + 32768) / 2 ^ 15" .
  have "of_int (s + 32768) / 2 ^ 15 - 1 = (of_int s / 2 ^ 15 :: rat)"
    by (simp add: field_simps)
  then have "fsub p (of_int (s + 32768) / 2 ^ 15) 1 = fl p (of_int s / 2 ^ 15)"
    by (simp only: fsub_def)
  also have "\<dots> = of_int s / 2 ^ 15"
    by (rule fl_dyadic [OF s])
  finally have g: "fsub p (of_int (s + 32768) / 2 ^ 15) 1 = of_int s / 2 ^ 15" .
  have "of_int s / 2 ^ 15 * 32768 = (of_int s :: rat)"
    by simp
  then have "fmul p (of_int s / 2 ^ 15) 32768 = fl p (of_int s)"
    by (simp only: fmul_def)
  also have "\<dots> = of_int s"
    by (rule fl_of_int [OF s])
  finally have h: "fmul p (of_int s / 2 ^ 15) 32768 = of_int s" .
  show ?thesis
    by (simp only: e g h)
qed

lemma descale_bound:
  assumes "0 \<le> f" and "f \<le> 1"
  shows "\<bar>fmul p (fsub p (fmul p f 2) 1) 32768\<bar> \<le> 2064384"
proof -
  define a where "a = fmul p f 2"
  define b where "b = fsub p a 1"
  have "\<bar>a\<bar> \<le> 3 * \<bar>f * 2\<bar>"
    unfolding a_def fmul_def by (rule fl_bound)
  with assms have a: "\<bar>a\<bar> \<le> 6" by simp
  have "\<bar>b\<bar> \<le> 3 * \<bar>a - 1\<bar>"
    unfolding b_def fsub_def by (rule fl_bound)
  moreover from a have "\<bar>a - 1\<bar> \<le> 7" by (simp add: abs_le_iff)
  ultimately have b: "\<bar>b\<bar> \<le> 21" by simp
  have "\<bar>fmul p b 32768\<bar> \<le> 3 * \<bar>b * 32768\<bar>"
    unfolding fmul_def by (rule fl_bound)
  with b have "\<bar>fmul p b 32768\<bar> \<le> 2064384" by (simp add: abs_mult)
  then show ?thesis by (simp only: a_def b_def)
qed

lemma astype_int_in_range:
  assumes "\<bar>v\<bar> < 2 ^ 63"
  shows "astype_int v = (if v < 0 then \<lceil>v\<rceil> else \<lfloor>v\<rfloor>)"
proof -
  define t where "t = (if v < 0 then \<lceil>v\<rceil> else \<lfloor>v\<rfloor>)"
  have c: "v \<le> of_int \<lceil>v\<rceil>" and f: "of_int \<lfloor>v\<rfloor> \<le> v"
    by simp_all
  have cz: "of_int \<lceil>v\<rceil> \<le> (0::rat)" if "v < 0"
    using that by (simp add: ceiling_le_zero)
  have fz: "(0::rat) \<le> of_int \<lfloor>v\<rfloor>" if "\<not> v < 0"
    using that by simp
  have "\<bar>of_int t :: rat\<bar> \<le> \<bar>v\<bar>"
    using c f cz fz by (cases "v < 0") (simp_all add: t_def)
  with assms have "\<bar>of_int t :: rat\<bar> < of_int (2 ^ 63)" by simp
  then have "\<bar>t\<bar> < 2 ^ 63"
    by (simp only: of_int_abs [symmetric] of_int_less_iff)
  then have "- (2 ^ 63) \<le> t \<and> t < 2 ^ 63" by linarith
  then show ?thesis
    by (simp add: astype_int_def Let_def flip: t_def)
qed

lemma astype_int_of_int:
  assumes "- (2 ^ 63) \<le> s" and "s < 2 ^ 63"
  shows "astype_int (of_int s) = s"
  using assms by (simp add: astype_int_def)

lemma astype_int_trunc:
  assumes "\<bar>v\<bar> < 2 ^ 63"
  shows "\<bar>of_int (astype_int v)\<bar> \<le> \<bar>v\<bar>"
    and "\<bar>v\<bar> < \<bar>of_int (astype_int v)\<bar> + 1"
    and "0 \<le> of_int (astype_int v) * v"
proof -
  note t = astype_int_in_range [OF assms]
  have c: "of_int \<lceil>v\<rceil> - 1 < v" "v \<le> of_int \<lceil>v\<rceil>"
    using ceiling_correct [of v] by simp_all
  have f: "of_int \<lfloor>v\<rfloor> \<le> v" "v < of_int \<lfloor>v\<rfloor> + 1"
    using floor_correct [of v] by simp_all
  have cz: "of_int \<lceil>v\<rceil> \<le> (0::rat)" if "v < 0"
    using that by (simp add: ceiling_le_zero)
  have fz: "(0::rat) \<le> of_int \<lfloor>v\<rfloor>" if "\<not> v < 0"
    using that by simp
  show "\<bar>of_int (astype_int v)\<bar> \<le> \<bar>v\<bar>"
    using c f cz fz by (cases "v < 0") (simp_all add: t)
  show "\<bar>v\<bar> < \<bar>of_int (astype_int v)\<bar> + 1"
    using c f cz fz by (cases "v < 0") (simp_all add: t)
  show "0 \<le> of_int (astype_int v) * v"
    using cz fz by (cases "v < 0") (simp_all add: t mult_nonpos_nonpos)
qed

lemma norm_clamp_range: "- 32768 \<le> norm_clamp x" "norm_clamp x \<le> 32767"
  by (simp_all add: norm_clamp_def)

lemma length_rescale [simp]: "length (rescale xs) = length xs"
  by (simp add: rescale_def)

lemma rescale_exact:
  assumes "\<forall>s \<in> set xs. \<bar>s\<bar> < 2 ^ 52"
  shows "rescale xs = map (\<lambda>s. (of_int s + 32768) / 65536) xs"
  unfolding rescale_def using assms by (intro map_cong refl forward_exact) simp

lemma rescale_zero: "rescale [0] = [1 / 2]"
  using rescale_exact [of "[0]"] by simp

lemma rescale_lowest: "rescale [- 32768] = [0]"
  using rescale_exact [of "[- 32768]"] by simp

lemma rescale_unit_interval:
  assumes "\<forall>s \<in> set xs. - 32768 \<le> s \<and> s \<le> 32767"
  shows "\<forall>v \<in> set (rescale xs). 0 \<le> v \<and> v \<le> 1"
proof -
  have "\<forall>s \<in> set xs. \<bar>s\<bar> < 2 ^ 52"
    using assms by fastforce
  then have n: "rescale xs = map (\<lambda>s. (of_int s + 32768) / 65536) xs"
    by (rule rescale_exact)
  show ?thesis
  proof
    fix v assume "v \<in> set (rescale xs)"
    then obtain s where s: "s \<in> set xs" and v: "v = (of_int s + 32768) / 65536"
      unfolding n by auto
    from s assms have "- 32768 \<le> s" "s \<le> 32767" by auto
    then have "(0::rat) \<le> of_int s + 32768" and "(of_int s :: rat) + 32768 \<le> 65536"
      by linarith+
    then show "0 \<le> v \<and> v \<le> 1"
      by (simp add: v)
  qed
qed

lemma roundtrip_exact:
  assumes "\<forall>s \<in> set xs. - 32768 \<le> s \<and> s \<le> 32767" "17 \<le> p"
  shows "map norm_clamp (descale p (rescale xs)) = xs"
proof -
  have "\<forall>s \<in> set xs. \<bar>s\<bar> < 2 ^ 52"
    using assms(1) by fastforce
  then have n: "rescale xs = map (\<lambda>s. (of_int s + 32768) / 65536) xs"
    by (rule rescale_exact)
  have "map norm_clamp (descale p (rescale xs)) = map (\<lambda>s. s) xs"
    unfolding n descale_def map_map comp_def
  proof (rule map_cong [OF refl])
    fix s assume "s \<in> set xs"
    with assms(1) have r: "- 32768 \<le> s" "s \<le> 32767" by auto
    then have "s \<le> 32768" by simp
    from r have "astype_int (of_int s) = s"
      by (intro astype_int_of_int) simp_all
    with inverse_exact [OF r(1) \<open>s \<le> 32768\<close> assms(2)] r
    show "norm_clamp (astype_int (fmul p (fsub p (fmul p ((of_int s + 32768) / 65536) 2) 1) 32768)) = s"
      by (simp add: norm_clamp_def)
  qed
  then show ?thesis by simp
qed

section \<open>Unpacking\<close>

lemma le_uint_bounds: "0 \<le> le_uint bs" "le_uint bs < 256 ^ length bs"
proof -
  show "0 \<le> le_uint bs"
    by (induction bs) simp_all
  show "le_uint bs < 256 ^ length bs"
  proof (induction bs)
    case Nil
    show ?case by simp
  next
    case (Cons b bs)
    have "uint b < 256"
      using uint_bounded [of b] by simp
    moreover from Cons have "le_uint bs + 1 \<le> 256 ^ length bs"
      by simp
    then have "256 * (le_uint bs + 1) \<le> 256 * 256 ^ length bs"
      by (rule mult_left_mono) simp
    ultimately show ?case
      by (simp add: algebra_simps)
  qed
qed

lemma to_signed_props:
  assumes "0 < k" and "0 \<le> v" and "v < 2 ^ (8 * k)"
  shows "- (2 ^ (8 * k - 1)) \<le> to_signed k v"
    and "to_signed k v < 2 ^ (8 * k - 1)"
    and "to_signed k v mod 2 ^ (8 * k) = v"
proof -
  from assms(1) have "8 * k = Suc (8 * k - 1)" by simp
  then have p: "(2::int) ^ (8 * k) = 2 * 2 ^ (8 * k - 1)"
    by (metis power_Suc)
  show "- (2 ^ (8 * k - 1)) \<le> to_signed k v"
    using assms(2,3) p by (simp add: to_signed_def)
  show "to_signed k v < 2 ^ (8 * k - 1)"
    using assms(2,3) p by (simp add: to_signed_def)
  show "to_signed k v mod 2 ^ (8 * k) = v"
  proof (cases "2 ^ (8 * k - 1) \<le> v")
    case True
    then have "to_signed k v mod 2 ^ (8 * k) = (v - 2 ^ (8 * k)) mod 2 ^ (8 * k)"
      by (simp add: to_signed_def)
    also have "\<dots> = v mod 2 ^ (8 * k)"
      by simp
    also have "\<dots> = v"
      using assms(2,3) by simp
    finally show ?thesis .
  next
    case False
    with assms(2,3) show ?thesis
      by (simp add: to_signed_def)
  qed
qed

lemma to_signed_le_uint:
  assumes "length t = k" and "0 < k"
  shows "- (2 ^ (8 * k - 1)) \<le> to_signed k (le_uint t)"
    and "to_signed k (le_uint t) < 2 ^ (8 * k - 1)"
    and "to_signed k (le_uint t) mod 2 ^ (8 * k) = le_uint t"
proof -
  have "(256::int) ^ k = 2 ^ (8 * k)"
    by (simp add: power_mult)
  with le_uint_bounds [of t] assms(1)
  have v: "0 \<le> le_uint t" "le_uint t < 2 ^ (8 * k)" by simp_all
  show "- (2 ^ (8 * k - 1)) \<le> to_signed k (le_uint t)"
    by (rule to_signed_props(1) [OF assms(2) v])
  show "to_signed k (le_uint t) < 2 ^ (8 * k - 1)"
    by (rule to_signed_props(2) [OF assms(2) v])
  show "to_signed k (le_uint t) mod 2 ^ (8 * k) = le_uint t"
    by (rule to_signed_props(3) [OF assms(2) v])
qed

lemma length_unpack_items [simp]: "length (unpack_items c n s) = n"
  by (induction n arbitrary: s) simp_all

lemma unpack_items_nth:
  "i < n \<Longrightarrow>
     unpack_items c n s ! i = unpack_one c (take (calcsize c) (drop (i * calcsize c) s))"
proof (induction n arbitrary: s i)
  case 0
  then show ?case by simp
next
  case (Suc n)
  show ?case
  proof (cases i)
    case 0
    then show ?thesis by simp
  next
    case (Suc j)
    with Suc.prems have "j < n" by simp
    from Suc.IH [OF this, of "drop (calcsize c) s"] Suc show ?thesis
      by (simp add: add.commute)
  qed
qed

lemma take_drop_take:
  assumes "i + k \<le> m"
  shows "take k (drop i (take m xs)) = take k (drop i xs)"
proof -
  have "take k (drop i (take m xs)) = take k (take (m - i) (drop i xs))"
    by (simp add: drop_take)
  also have "\<dots> = take k (drop i xs)"
    using assms by (simp add: min_def)
  finally show ?thesis .
qed

lemma length_slice:
  assumes "k * n \<le> length xs" and "i < n"
  shows "length (take k (drop (k * i) xs)) = k"
proof -
  from assms(2) have "Suc i \<le> n" by simp
  then have "k * Suc i \<le> k * n" by (rule mult_le_mono2)
  with assms(1) have "k \<le> length xs - k * i" by simp
  then show ?thesis by simp
qed

section \<open>Reading\<close>

lemma pad_frame_raises:
  "cs \<noteq> [] \<Longrightarrow> pad_frame cs fr s = Inl TypeError"
  by (cases cs) (simp_all add: py_add_def)

lemma read_width3_text:
  "read_width3 f k rest (Str a) = Inl TypeError \<or> read_width3 f k rest (Str a) = Inr (Str a)"
proof (induction k arbitrary: rest)
  case 0
  show ?case by simp
next
  case (Suc k)
  obtain fr rest' where r: "readframes f 1 rest = (fr, rest')"
    by (cases "readframes f 1 rest")
  show ?case
  proof (cases "map (\<lambda>j. 3 * j) [0..<nchannels f] = []")
    case True
    then have "read_width3 f (Suc k) rest (Str a) = read_width3 f k rest' (Str a)"
      by (simp only: read_width3.simps r Let_def prod.case pad_frame.simps sum.case)
    with Suc.IH [of rest'] show ?thesis by simp
  next
    case False
    then have "pad_frame (map (\<lambda>j. 3 * j) [0..<nchannels f]) fr (Str a) = Inl TypeError"
      by (rule pad_frame_raises)
    then have "read_width3 f (Suc k) rest (Str a) = Inl TypeError"
      by (simp only: read_width3.simps r Let_def prod.case sum.case)
    then show ?thesis by simp
  qed
qed

lemma dataFromWave_Inr:
  assumes "dataFromWave w = Inr (xs, c, n, k, r)"
  shows "c = nchannels w" and "n = nframes w" and "k = sampwidth w" and "r = framerate w"
    and "length xs = nframes w * nchannels w"
  using assms
  by (auto simp: dataFromWave_def struct_unpack_def Let_def
           split: option.splits sum.splits if_splits pystr.splits)

lemma dataFromWave_plain:
  assumes c: "fmt_of_width (sampwidth w) = Some c" and k: "calcsize c = sampwidth w"
    and len: "sampwidth w * (nframes w * nchannels w) \<le> length (frames_data w)"
  shows "dataFromWave w =
      Inr (map (\<lambda>i. unpack_one c (take (sampwidth w) (drop (sampwidth w * i) (frames_data w))))
             [0..<nframes w * nchannels w],
           nchannels w, nframes w, sampwidth w, framerate w)"
proof -
  define N where "N = nframes w * nchannels w"
  define K where "K = sampwidth w"
  define s where "s = take (N * K) (frames_data w)"
  have n3: "K \<noteq> 3"
    using c k by (auto simp: fmt_of_width_def K_def split: if_splits)
  have rf: "fst (readframes w (nframes w) (frames_data w)) = s"
    by (simp add: readframes_def Let_def s_def N_def K_def algebra_simps)
  from len have ls: "length s = N * K"
    by (simp add: s_def N_def K_def mult.commute)
  have "unpack_items c N s =
        map (\<lambda>i. unpack_one c (take K (drop (K * i) (frames_data w)))) [0..<N]"
  proof (rule nth_equalityI)
    show "length (unpack_items c N s) =
          length (map (\<lambda>i. unpack_one c (take K (drop (K * i) (frames_data w)))) [0..<N])"
      by simp
  next
    fix i assume "i < length (unpack_items c N s)"
    then have i: "i < N" by simp
    then have "Suc i \<le> N" by simp
    then have "Suc i * K \<le> N * K" by (rule mult_le_mono1)
    then have le: "i * K + K \<le> N * K" by simp
    have "unpack_items c N s ! i = unpack_one c (take K (drop (i * K) s))"
      using unpack_items_nth [OF i, of c s] by (simp add: k K_def)
    also have "take K (drop (i * K) s) = take K (drop (i * K) (frames_data w))"
      unfolding s_def by (rule take_drop_take [OF le])
    finally show "unpack_items c N s ! i =
        map (\<lambda>i. unpack_one c (take K (drop (K * i) (frames_data w)))) [0..<N] ! i"
      using i by (simp add: mult.commute)
  qed
  with n3 ls show ?thesis
    unfolding dataFromWave_def Let_def rf
    by (simp add: c struct_unpack_def k N_def K_def)
qed

lemma dataFromWave_other_widths:
  assumes "sampwidth w \<in> {1, 2, 4, 8}"
    and "sampwidth w * (nframes w * nchannels w) \<le> length (frames_data w)"
  shows "\<exists>xs c. fmt_of_width (sampwidth w) = Some c
     \<and> calcsize c = sampwidth w
     \<and> dataFromWave w = Inr (xs, nchannels w, nframes w, sampwidth w, framerate w)
     \<and> length xs = nframes w * nchannels w
     \<and> (\<forall>i < length xs.
          xs ! i = unpack_one c (take (sampwidth w) (drop (sampwidth w * i) (frames_data w)))
          \<and> - (2 ^ (8 * sampwidth w - 1)) \<le> xs ! i
          \<and> xs ! i < 2 ^ (8 * sampwidth w - 1)
          \<and> xs ! i mod 2 ^ (8 * sampwidth w) =
              le_uint (take (sampwidth w) (drop (sampwidth w * i) (frames_data w))))"
proof -
  define K where "K = sampwidth w"
  define N where "N = nframes w * nchannels w"
  define t where "t = (\<lambda>i. take K (drop (K * i) (frames_data w)))"
  define xs where "xs = map (\<lambda>i. to_signed K (le_uint (t i))) [0..<N]"
  from assms(1) have Kpos: "0 < K" by (auto simp: K_def)
  have lt: "length (t i) = K" if "i < N" for i
    unfolding t_def using assms(2) that unfolding K_def [symmetric] N_def [symmetric]
    by (rule length_slice)
  have lx: "length xs = N" by (simp add: xs_def)
  have nth: "xs ! i = to_signed K (le_uint (t i))" if "i < N" for i
    using that by (simp add: xs_def)
  have rng: "- (2 ^ (8 * K - 1)) \<le> xs ! i \<and> xs ! i < 2 ^ (8 * K - 1)
             \<and> xs ! i mod 2 ^ (8 * K) = le_uint (t i)" if "i < N" for i
    using to_signed_le_uint [OF lt [OF that] Kpos] nth [OF that] by simp
  from assms(1) obtain c where c: "fmt_of_width K = Some c" and k: "calcsize c = K"
    by (auto simp: K_def fmt_of_width_def)
  have d: "dataFromWave w = Inr (xs, nchannels w, nframes w, sampwidth w, framerate w)"
    using dataFromWave_plain [OF c [unfolded K_def] k [unfolded K_def] assms(2)]
    by (simp add: xs_def t_def unpack_one_def k K_def N_def)
  have m: "xs ! i = unpack_one c (t i)" if "i < N" for i
    using nth [OF that] by (simp add: unpack_one_def k)
  from c k d lx m rng show ?thesis
    unfolding K_def [symmetric] N_def [symmetric] t_def
    by (intro exI [of _ xs] exI [of _ c]) simp
qed

section \<open>Writing\<close>

lemma length_le_bytes [simp]: "length (le_bytes k v) = k"
  by (simp add: le_bytes_def)

lemma ensure_header_written_Inr:
  assumes "ensure_header_written obj n = Inr obj'"
  shows "ww_nchannels obj' = ww_nchannels obj" and "ww_sampwidth obj' = ww_sampwidth obj"
    and "ww_framerate obj' = ww_framerate obj" and "ww_frames obj' = ww_frames obj"
    and "ww_datawritten obj' = ww_datawritten obj"
  using assms
  by (auto simp: ensure_header_written_def write_header_def Let_def split: if_splits)

lemma writeframesraw_Inr:
  assumes "writeframesraw obj bs = Inr obj'"
  shows "ww_nchannels obj' = ww_nchannels obj" and "ww_sampwidth obj' = ww_sampwidth obj"
    and "ww_framerate obj' = ww_framerate obj" and "ww_frames obj' = ww_frames obj @ [bs]"
    and "ww_datawritten obj' = ww_datawritten obj + length bs"
proof -
  from assms obtain o1 where e: "ensure_header_written obj (length bs) = Inr o1"
    and o: "obj' = o1\<lparr>ww_frames := ww_frames o1 @ [bs],
                       ww_datawritten := ww_datawritten o1 + length bs\<rparr>"
    by (auto simp: writeframesraw_def split: sum.splits)
  note h = ensure_header_written_Inr [OF e]
  show "ww_nchannels obj' = ww_nchannels obj" and "ww_sampwidth obj' = ww_sampwidth obj"
    and "ww_framerate obj' = ww_framerate obj" and "ww_frames obj' = ww_frames obj @ [bs]"
    and "ww_datawritten obj' = ww_datawritten obj + length bs"
    by (simp_all add: o h)
qed

lemma write_loop_Inr:
  "write_loop c xs is obj = Inr obj' \<Longrightarrow>
     ww_nchannels obj' = ww_nchannels obj \<and> ww_sampwidth obj' = ww_sampwidth obj
     \<and> ww_framerate obj' = ww_framerate obj
     \<and> length (ww_frames obj') = length (ww_frames obj) + length is"
proof (induction "is" arbitrary: obj)
  case Nil
  then show ?case by simp
next
  case (Cons i "is")
  from Cons.prems obtain b o1 where w: "writeframesraw obj b = Inr o1"
    and l: "write_loop c xs is o1 = Inr obj'"
    by (auto split: if_splits sum.splits)
  from Cons.IH [OF l] writeframesraw_Inr [OF w] show ?case by simp
qed

lemma wave_close_Inr:
  assumes "wave_close obj = Inr out"
  shows "w_nchannels out = ww_nchannels obj" and "w_sampwidth out = ww_sampwidth obj"
    and "w_framerate out = ww_framerate obj" and "w_frames out = ww_frames obj"
proof -
  from assms obtain o1 o2 where e: "ensure_header_written obj 0 = Inr o1"
    and p: "(if ww_datalength o1 \<noteq> ww_datawritten o1 then patchheader o1 else Inr o1) = Inr o2"
    and out: "out = \<lparr>w_nchannels = ww_nchannels o2, w_sampwidth = ww_sampwidth o2,
                    w_framerate = ww_framerate o2, w_frames = ww_frames o2\<rparr>"
    by (auto simp: wave_close_def split: sum.splits)
  note h = ensure_header_written_Inr [OF e]
  from p have "ww_nchannels o2 = ww_nchannels o1 \<and> ww_sampwidth o2 = ww_sampwidth o1
      \<and> ww_framerate o2 = ww_framerate o1 \<and> ww_frames o2 = ww_frames o1"
    by (auto simp: patchheader_def split: if_splits)
  then show "w_nchannels out = ww_nchannels obj" and "w_sampwidth out = ww_sampwidth obj"
    and "w_framerate out = ww_framerate obj" and "w_frames out = ww_frames obj"
    by (simp_all add: out h)
qed

lemma dataToWave_Inr:
  assumes "dataToWave xs c n k r = Inr out"
  shows "w_nchannels out = c" and "w_sampwidth out = k" and "w_framerate out = r"
    and "length (w_frames out) = n * c"
proof -
  define obj0 where "obj0 = \<lparr>ww_nchannels = c, ww_sampwidth = k, ww_framerate = r,
      ww_headerwritten = False, ww_datalength = 0, ww_datawritten = 0, ww_frames = []\<rparr>"
  from assms obtain f obj where l: "write_loop f xs [0..<n * c] obj0 = Inr obj"
    and cl: "wave_close obj = Inr out"
    unfolding dataToWave_def obj0_def [symmetric]
    by (auto split: if_splits option.splits sum.splits)
  from write_loop_Inr [OF l] wave_close_Inr [OF cl]
  show "w_nchannels out = c" and "w_sampwidth out = k" and "w_framerate out = r"
    and "length (w_frames out) = n * c"
    by (simp_all add: obj0_def)
qed

lemma header_fits_mono:
  assumes "header_fits chans width rate d" and "d' \<le> d"
  shows "header_fits chans width rate d'"
  using assms by (simp add: header_fits_def fits_unsigned_def)

lemma ensure_header_written_ok:
  assumes "1 \<le> ww_nchannels obj" and "1 \<le> ww_sampwidth obj" and "1 \<le> ww_framerate obj"
    and "header_fits (ww_nchannels obj) (ww_sampwidth obj) (ww_framerate obj) n"
  shows "\<exists>obj'. ensure_header_written obj n = Inr obj'"
proof (cases "ww_headerwritten obj")
  case True
  then show ?thesis by (simp add: ensure_header_written_def)
next
  case False
  define d where
    "d = n div (ww_nchannels obj * ww_sampwidth obj) * ww_nchannels obj * ww_sampwidth obj"
  have "d = n div (ww_nchannels obj * ww_sampwidth obj) * (ww_nchannels obj * ww_sampwidth obj)"
    by (simp add: d_def mult.assoc)
  then have "d \<le> n" by simp
  with assms(4) have "header_fits (ww_nchannels obj) (ww_sampwidth obj) (ww_framerate obj) d"
    by (rule header_fits_mono)
  with False assms(1-3) show ?thesis
    by (simp add: ensure_header_written_def write_header_def Let_def flip: d_def)
qed

lemma writeframesraw_ok:
  assumes "1 \<le> ww_nchannels obj" and "1 \<le> ww_sampwidth obj" and "1 \<le> ww_framerate obj"
    and "header_fits (ww_nchannels obj) (ww_sampwidth obj) (ww_framerate obj) (length bs)"
  shows "\<exists>obj'. writeframesraw obj bs = Inr obj'"
  using ensure_header_written_ok [OF assms] by (auto simp: writeframesraw_def)

lemma write_loop_ok:
  assumes "\<forall>i \<in> set is. i < length xs
             \<and> - (2 ^ (8 * calcsize c - 1)) \<le> xs ! i \<and> xs ! i < 2 ^ (8 * calcsize c - 1)"
    and "1 \<le> ww_nchannels obj" and "1 \<le> ww_sampwidth obj" and "1 \<le> ww_framerate obj"
    and "header_fits (ww_nchannels obj) (ww_sampwidth obj) (ww_framerate obj) (calcsize c)"
  shows "\<exists>obj'. write_loop c xs is obj = Inr obj'
           \<and> ww_nchannels obj' = ww_nchannels obj \<and> ww_sampwidth obj' = ww_sampwidth obj
           \<and> ww_framerate obj' = ww_framerate obj
           \<and> ww_frames obj' = ww_frames obj @ map (\<lambda>i. le_bytes (calcsize c) (xs ! i)) is
           \<and> ww_datawritten obj' = ww_datawritten obj + length is * calcsize c"
  using assms
proof (induction "is" arbitrary: obj)
  case Nil
  show ?case by simp
next
  case (Cons i "is")
  define b where "b = le_bytes (calcsize c) (xs ! i)"
  from Cons.prems(1) have i: "i < length xs"
    and p: "struct_pack c (xs ! i) = Inr b"
    by (simp_all add: struct_pack_def b_def)
  have lb: "length b = calcsize c" by (simp add: b_def)
  from Cons.prems(2-5) obtain o1 where w: "writeframesraw obj b = Inr o1"
    using writeframesraw_ok [of obj b] by (auto simp: lb)
  note h = writeframesraw_Inr [OF w]
  from Cons.prems have "\<exists>obj'. write_loop c xs is o1 = Inr obj'
           \<and> ww_nchannels obj' = ww_nchannels o1 \<and> ww_sampwidth obj' = ww_sampwidth o1
           \<and> ww_framerate obj' = ww_framerate o1
           \<and> ww_frames obj' = ww_frames o1 @ map (\<lambda>i. le_bytes (calcsize c) (xs ! i)) is
           \<and> ww_datawritten obj' = ww_datawritten o1 + length is * calcsize c"
    by (intro Cons.IH) (simp_all add: h)
  then obtain obj' where l: "write_loop c xs is o1 = Inr obj'"
    and r: "ww_nchannels obj' = ww_nchannels o1" "ww_sampwidth obj' = ww_sampwidth o1"
           "ww_framerate obj' = ww_framerate o1"
           "ww_frames obj' = ww_frames o1 @ map (\<lambda>i. le_bytes (calcsize c) (xs ! i)) is"
           "ww_datawritten obj' = ww_datawritten o1 + length is * calcsize c"
    by (elim exE conjE)
  have "write_loop c xs (i # is) obj = Inr obj'"
    using i p w l by simp
  with r h show ?case
    by (intro exI [of _ obj']) (simp add: b_def lb)
qed

lemma wave_close_ok:
  assumes "1 \<le> ww_nchannels obj" and "1 \<le> ww_sampwidth obj" and "1 \<le> ww_framerate obj"
    and "header_fits (ww_nchannels obj) (ww_sampwidth obj) (ww_framerate obj)
           (ww_datawritten obj)"
  shows "wave_close obj =
           Inr \<lparr>w_nchannels = ww_nchannels obj, w_sampwidth = ww_sampwidth obj,
                w_framerate = ww_framerate obj, w_frames = ww_frames obj\<rparr>"
proof -
  from assms(4) have h0: "header_fits (ww_nchannels obj) (ww_sampwidth obj) (ww_framerate obj) 0"
    by (rule header_fits_mono) simp
  from ensure_header_written_ok [OF assms(1-3) h0]
  obtain o1 where e: "ensure_header_written obj 0 = Inr o1" ..
  note h = ensure_header_written_Inr [OF e]
  from assms(4) have fit: "fits_unsigned 32 (36 + ww_datawritten o1)"
    by (simp add: header_fits_def h)
  then obtain o2
    where p: "(if ww_datalength o1 \<noteq> ww_datawritten o1 then patchheader o1 else Inr o1) = Inr o2"
      and k: "ww_nchannels o2 = ww_nchannels o1" "ww_sampwidth o2 = ww_sampwidth o1"
             "ww_framerate o2 = ww_framerate o1" "ww_frames o2 = ww_frames o1"
    by (cases "ww_datalength o1 \<noteq> ww_datawritten o1") (auto simp: patchheader_def)
  show ?thesis
    unfolding wave_close_def e sum.case p by (simp add: k h)
qed

lemma map_nth_take:
  assumes "n \<le> length xs"
  shows "map (\<lambda>i. f (xs ! i)) [0..<n] = map f (take n xs)"
  using assms by (intro nth_equalityI) simp_all

lemma dataToWave_ok:
  assumes "1 \<le> chans" and "1 \<le> width" and "width \<le> 4" and "1 \<le> rate"
    and "fmt_of_width width = Some c"
    and "header_fits chans width rate (samps * chans * calcsize c)"
    and "samps * chans \<le> length xs"
    and "\<forall>i < samps * chans.
           - (2 ^ (8 * calcsize c - 1)) \<le> xs ! i \<and> xs ! i < 2 ^ (8 * calcsize c - 1)"
  shows "dataToWave xs chans samps width rate =
           Inr \<lparr>w_nchannels = chans, w_sampwidth = width, w_framerate = rate,
                w_frames = map (le_bytes (calcsize c)) (take (samps * chans) xs)\<rparr>"
proof -
  define N where "N = samps * chans"
  define obj0 where "obj0 = \<lparr>ww_nchannels = chans, ww_sampwidth = width, ww_framerate = rate,
      ww_headerwritten = False, ww_datalength = 0, ww_datawritten = 0, ww_frames = []\<rparr>"
  have f0: "ww_nchannels obj0 = chans" "ww_sampwidth obj0 = width" "ww_framerate obj0 = rate"
    "ww_frames obj0 = []" "ww_datawritten obj0 = 0"
    by (simp_all add: obj0_def)
  have tot: "header_fits chans width rate (N * calcsize c)"
    using assms(6) by (simp add: N_def)
  have ex: "\<exists>obj'. write_loop c xs [0..<N] obj0 = Inr obj'
           \<and> ww_nchannels obj' = ww_nchannels obj0 \<and> ww_sampwidth obj' = ww_sampwidth obj0
           \<and> ww_framerate obj' = ww_framerate obj0
           \<and> ww_frames obj' = ww_frames obj0 @ map (\<lambda>i. le_bytes (calcsize c) (xs ! i)) [0..<N]
           \<and> ww_datawritten obj' = ww_datawritten obj0 + length [0..<N] * calcsize c"
  proof (cases "N = 0")
    case True
    then show ?thesis by simp
  next
    case False
    then have "calcsize c \<le> N * calcsize c" by simp
    with tot have one: "header_fits chans width rate (calcsize c)"
      by (rule header_fits_mono)
    show ?thesis
    proof (rule write_loop_ok)
      show "\<forall>i \<in> set [0..<N]. i < length xs
             \<and> - (2 ^ (8 * calcsize c - 1)) \<le> xs ! i \<and> xs ! i < 2 ^ (8 * calcsize c - 1)"
        using assms(7,8) by (simp add: N_def)
      show "1 \<le> ww_nchannels obj0" "1 \<le> ww_sampwidth obj0" "1 \<le> ww_framerate obj0"
        using assms(1,2,4) by (simp_all add: f0)
      show "header_fits (ww_nchannels obj0) (ww_sampwidth obj0) (ww_framerate obj0) (calcsize c)"
        using one by (simp add: f0)
    qed
  qed
  then obtain obj where l: "write_loop c xs [0..<N] obj0 = Inr obj"
    and g: "ww_nchannels obj = chans" "ww_sampwidth obj = width" "ww_framerate obj = rate"
    and fr: "ww_frames obj = map (\<lambda>i. le_bytes (calcsize c) (xs ! i)) [0..<N]"
    and dw: "ww_datawritten obj = N * calcsize c"
    by (auto simp: f0)
  have "wave_close obj =
           Inr \<lparr>w_nchannels = ww_nchannels obj, w_sampwidth = ww_sampwidth obj,
                w_framerate = ww_framerate obj, w_frames = ww_frames obj\<rparr>"
    using assms(1,2,4) tot by (intro wave_close_ok) (simp_all add: g dw)
  also have "ww_frames obj = map (le_bytes (calcsize c)) (take N xs)"
    unfolding fr using assms(7) unfolding N_def [symmetric] by (rule map_nth_take)
  finally have cl: "wave_close obj =
           Inr \<lparr>w_nchannels = chans, w_sampwidth = width, w_framerate = rate,
                w_frames = map (le_bytes (calcsize c)) (take N xs)\<rparr>"
    by (simp only: g)
  show ?thesis
    using assms(1-5)
    unfolding dataToWave_def obj0_def [symmetric] N_def [symmetric]
    by (simp add: l cl)
qed

text \<open>
  A write that completes has packed its header, so the header values fitted their
  fields: the condition on the header in \<open>dataToWave_ok\<close> is needed.
\<close>

lemma ensure_header_written_fits:
  assumes "ensure_header_written obj n = Inr obj'"
  shows "ww_headerwritten obj'"
    and "ww_headerwritten obj \<or>
         (\<exists>d. header_fits (ww_nchannels obj) (ww_sampwidth obj) (ww_framerate obj) d)"
  using assms
  by (auto simp: ensure_header_written_def write_header_def Let_def split: if_splits)

lemma write_loop_fits:
  "write_loop c xs is obj = Inr obj' \<Longrightarrow> ww_headerwritten obj' \<Longrightarrow>
     ww_headerwritten obj \<or>
     (\<exists>d. header_fits (ww_nchannels obj) (ww_sampwidth obj) (ww_framerate obj) d)"
proof (induction "is" arbitrary: obj)
  case Nil
  then show ?case by simp
next
  case (Cons i "is")
  from Cons.prems(1) obtain b o1 where w: "writeframesraw obj b = Inr o1"
    and l: "write_loop c xs is o1 = Inr obj'"
    by (auto split: if_splits sum.splits)
  from w obtain o0 where e: "ensure_header_written obj (length b) = Inr o0"
    by (auto simp: writeframesraw_def split: sum.splits)
  from ensure_header_written_fits(2) [OF e] show ?case .
qed

lemma dataToWave_needs_header:
  assumes "dataToWave xs chans samps width rate = Inr out"
  shows "fits_unsigned 16 chans \<and> fits_unsigned 32 rate
       \<and> fits_unsigned 32 (chans * rate * width) \<and> fits_unsigned 16 (chans * width)"
proof -
  define obj0 where "obj0 = \<lparr>ww_nchannels = chans, ww_sampwidth = width, ww_framerate = rate,
      ww_headerwritten = False, ww_datalength = 0, ww_datawritten = 0, ww_frames = []\<rparr>"
  from assms obtain f obj where l: "write_loop f xs [0..<samps * chans] obj0 = Inr obj"
    and cl: "wave_close obj = Inr out"
    unfolding dataToWave_def obj0_def [symmetric]
    by (auto split: if_splits option.splits sum.splits)
  from cl obtain o1 where e: "ensure_header_written obj 0 = Inr o1"
    by (auto simp: wave_close_def split: sum.splits)
  note p = write_loop_Inr [OF l]
  have "\<exists>d. header_fits chans width rate d"
  proof (cases "ww_headerwritten obj")
    case True
    from write_loop_fits [OF l True] show ?thesis
      by (simp add: obj0_def)
  next
    case False
    with ensure_header_written_fits(2) [OF e] p show ?thesis
      by (simp add: obj0_def)
  qed
  then show ?thesis
    by (auto simp: header_fits_def)
qed

text \<open>
  Two calls that end in the header: 32768 channels of width 2 have a block size of
  65536, which does not fit 16 bits; a mono stream of width 3 at 1431655766 Hz has a
  byte rate of \<open>2\<^sup>3\<^sup>2 + 2\<close>, which does not fit 32 bits, while at 1431655765 Hz it
  fits.
\<close>

lemma dataToWave_block_size_overflow:
  "dataToWave [] 32768 0 2 400 = Inl StructError"
  by (simp add: dataToWave_def fmt_of_width_def wave_close_def ensure_header_written_def
        write_header_def header_fits_def fits_unsigned_def)

lemma dataToWave_byte_rate_overflow:
  "dataToWave [5] 1 1 3 1431655766 = Inl StructError"
  by (simp add: dataToWave_def fmt_of_width_def struct_pack_def writeframesraw_def
        ensure_header_written_def write_header_def header_fits_def fits_unsigned_def)

lemma dataToWave_byte_rate_fits:
  "\<exists>out. dataToWave [5] 1 1 3 1431655765 = Inr out"
  by (simp add: dataToWave_def fmt_of_width_def struct_pack_def writeframesraw_def
        ensure_header_written_def write_header_def header_fits_def fits_unsigned_def
        wave_close_def patchheader_def)

section \<open>Successful encoding\<close>

lemma encode_inputs_Inr:
  assumes "encode_inputs w = Inr (frames, rate, ps)"
  obtains xs where "dataFromWave w = Inr (xs, nchannels w, nframes w, sampwidth w, framerate w)"
    and "rate = framerate w div 100"
    and "padAndSplit (rescale xs) rate = Inr frames"
    and "ps = [nchannels w, nframes w, sampwidth w, framerate w]"
proof -
  from assms obtain xs c n k r where d: "dataFromWave w = Inr (xs, c, n, k, r)"
    by (auto simp: encode_inputs_def split: sum.splits)
  note h = dataFromWave_Inr [OF d]
  from assms d have "rate = r div 100" and "padAndSplit (rescale xs) rate = Inr frames"
    and "ps = [c, n, k, r]"
    by (auto simp: encode_inputs_def Let_def split: sum.splits)
  with d h that show thesis by simp
qed

lemma encode_Inr:
  assumes "encode fit w = Inr (c, dec)"
  obtains inputs m
  where "encode_inputs w = Inr (inputs, framerate w div 100,
                               [nchannels w, nframes w, sampwidth w, framerate w])"
    and "fit (framerate w div 100) inputs = Inr m"
    and "c = \<lparr>data = encoder m inputs,
               params = [nchannels w, nframes w, sampwidth w, framerate w]\<rparr>"
    and "dec = decoder m"
proof -
  from assms obtain inputs rate ps m
    where e: "encode_inputs w = Inr (inputs, rate, ps)"
      and f: "fit rate inputs = Inr m"
      and c: "c = \<lparr>data = encoder m inputs, params = ps\<rparr>" and dec: "dec = decoder m"
    by (auto simp: encode_def split: sum.splits)
  from e obtain xs where "rate = framerate w div 100"
    and "ps = [nchannels w, nframes w, sampwidth w, framerate w]"
    by (rule encode_inputs_Inr)
  with e f c dec that show thesis by simp
qed

chapter \<open>The claims\<close>

section \<open>C1: padding and framing\<close>

text \<open>
  Claim C1. For a frame length \<open>L \<ge> 1\<close> and a sample sequence of any length \<open>n\<close>, the
  padding and framing step succeeds and yields \<open>n div L + 1\<close> frames, each of length
  \<open>L\<close>. The frames laid end to end are the input followed by \<open>L - n mod L\<close> zeros, a
  length that is a multiple of \<open>L\<close> and strictly above \<open>n\<close>. When \<open>L\<close> divides \<open>n\<close> the last
  frame consists of zeros only: 200 samples in frames of 100 give three frames.
\<close>

theorem padAndSplit_frames:
  assumes "1 \<le> L"
  shows "\<exists>frames. padAndSplit xs L = Inr frames
           \<and> length frames = length xs div L + 1
           \<and> (\<forall>fr \<in> set frames. length fr = L)
           \<and> concat frames = xs @ replicate (L - length xs mod L) 0
           \<and> length (concat frames) = length xs + (L - length xs mod L)
           \<and> L dvd length (concat frames)
           \<and> length xs < length (concat frames)
           \<and> (L dvd length xs \<longrightarrow> last frames = replicate L 0)"
  using padAndSplit_props [of L xs] assms by simp

text \<open>
  The theorem at 200 samples and frame length 100, where \<open>L\<close> divides \<open>n\<close>: three frames,
  the last one all zeros.
\<close>

theorem padAndSplit_frames_witness:
  "\<exists>frames. padAndSplit (replicate 200 (1 / 2)) 100 = Inr frames
     \<and> length frames = 3
     \<and> length (concat frames) = 300
     \<and> last frames = replicate 100 0"
proof -
  have h: "(1::nat) \<le> 100" by simp
  from padAndSplit_frames [OF h, of "replicate 200 (1 / 2)"]
  show ?thesis by auto
qed

section \<open>C2: decoding drops the padding\<close>

text \<open>
  Claim C2, as amended. Take a stream of sample width 2 or 4 with at least one channel,
  on which encoding succeeds, whose header values fit the fields of the header to be
  written (\<^const>\<open>header_fits\<close> for the \<open>nframes * nchannels * sampwidth\<close> bytes of data),
  and a network whose decoder returns one row of frame length per encoded frame. Then
  the reconstructed sequence has the padded length, which exceeds \<open>nframes * nchannels\<close>,
  and decoding succeeds and writes exactly the first \<open>nframes * nchannels\<close> of its
  values, each packed with the format of the width: the padding tail is dropped here,
  whatever its length. (A stream of width 3 is never encoded, see C7; width 8 is refused
  by the writer; width 1 is the counterexample below.)
\<close>

theorem decode_writes_all_samples:
  assumes enc: "encode fit w = Inr (c, dec)"
    and net: "\<forall>r xs m. fit r xs = Inr m \<longrightarrow>
                length (decoder m (encoder m xs)) = length xs
                \<and> (\<forall>row \<in> set (decoder m (encoder m xs)). length row = r)"
    and width: "sampwidth w \<in> {2, 4}"
    and chans: "1 \<le> nchannels w"
    and hdr: "header_fits (nchannels w) (sampwidth w) (framerate w)
                (nframes w * nchannels w * sampwidth w)"
  shows "\<exists>ys k out. reconstruct p (dec (data c)) = Inr ys
           \<and> length ys =
               (nframes w * nchannels w div (framerate w div 100) + 1) * (framerate w div 100)
           \<and> nframes w * nchannels w < length ys
           \<and> fmt_of_width (sampwidth w) = Some k
           \<and> decode p c dec = Inr out
           \<and> length (w_frames out) = nframes w * nchannels w
           \<and> w_frames out = map (le_bytes (calcsize k)) (take (nframes w * nchannels w) ys)"
proof -
  define N where "N = nframes w * nchannels w"
  define rate where "rate = framerate w div 100"
  from enc obtain inputs m
    where ei: "encode_inputs w = Inr (inputs, rate,
                                 [nchannels w, nframes w, sampwidth w, framerate w])"
      and fit: "fit rate inputs = Inr m"
      and c: "c = \<lparr>data = encoder m inputs,
                    params = [nchannels w, nframes w, sampwidth w, framerate w]\<rparr>"
      and dec: "dec = decoder m"
    unfolding rate_def by (rule encode_Inr)
  from ei obtain xs
    where d: "dataFromWave w = Inr (xs, nchannels w, nframes w, sampwidth w, framerate w)"
      and "rate = framerate w div 100"
      and ps: "padAndSplit (rescale xs) rate = Inr inputs"
      and "[nchannels w, nframes w, sampwidth w, framerate w] =
           [nchannels w, nframes w, sampwidth w, framerate w]"
    by (rule encode_inputs_Inr)
  from d have lx: "length xs = N"
    unfolding N_def by (rule dataFromWave_Inr(5))
  from ps have rpos: "0 < rate"
    by (rule padAndSplit_Inr(1))
  from ps have li: "length inputs = N div rate + 1"
    using padAndSplit_Inr(2) [OF ps] by (simp add: lx)
  define rows where "rows = dec (data c)"
  have rows: "rows = decoder m (encoder m inputs)"
    by (simp add: rows_def c dec)
  from net fit have lr: "length rows = length inputs"
    and rr: "\<forall>row \<in> set rows. length row = rate"
    unfolding rows by blast+
  from lr li have ne: "rows \<noteq> []" by auto
  define ys where "ys = map norm_clamp (descale p (concat rows))"
  have rec: "reconstruct p (dec (data c)) = Inr ys"
    using ne by (simp add: reconstruct_def ys_def flip: rows_def)
  have "length ys = length (concat rows)"
    by (simp add: ys_def descale_def)
  also have "\<dots> = length rows * rate"
    using rr by (rule length_concat_uniform)
  finally have ly: "length ys = (N div rate + 1) * rate"
    by (simp only: lr li)
  with less_padded [OF rpos, of N] have gt: "N < length ys" by simp
  have yr: "- 32768 \<le> ys ! i \<and> ys ! i \<le> 32767" if "i < length ys" for i
    using that norm_clamp_range by (simp add: ys_def)
  from width obtain k where k: "fmt_of_width (sampwidth w) = Some k"
    and kk: "k = Fmt_h \<or> k = Fmt_i" and ck: "calcsize k = sampwidth w"
    by (auto simp: fmt_of_width_def)
  from rpos have fr: "1 \<le> framerate w"
    by (cases "framerate w = 0") (simp_all add: rate_def)
  have dp: "decode_params c = Inr (nchannels w, nframes w, sampwidth w, framerate w)"
    by (simp add: decode_params_def np_index_def c)
  have "dataToWave ys (nchannels w) (nframes w) (sampwidth w) (framerate w) =
      Inr \<lparr>w_nchannels = nchannels w, w_sampwidth = sampwidth w, w_framerate = framerate w,
           w_frames = map (le_bytes (calcsize k)) (take (nframes w * nchannels w) ys)\<rparr>"
    using chans _ _ fr k
  proof (rule dataToWave_ok)
    show "1 \<le> sampwidth w" and "sampwidth w \<le> 4"
      using width by auto
    show "header_fits (nchannels w) (sampwidth w) (framerate w)
            (nframes w * nchannels w * calcsize k)"
      using hdr by (simp only: ck)
    show "nframes w * nchannels w \<le> length ys"
      using gt by (simp add: N_def)
    show "\<forall>i < nframes w * nchannels w.
           - (2 ^ (8 * calcsize k - 1)) \<le> ys ! i \<and> ys ! i < 2 ^ (8 * calcsize k - 1)"
    proof (intro allI impI)
      fix i assume "i < nframes w * nchannels w"
      with gt have "i < length ys" by (simp add: N_def)
      from yr [OF this] kk
      show "- (2 ^ (8 * calcsize k - 1)) \<le> ys ! i \<and> ys ! i < 2 ^ (8 * calcsize k - 1)"
        by auto
    qed
  qed
  then have dc: "decode p c dec =
      Inr \<lparr>w_nchannels = nchannels w, w_sampwidth = sampwidth w, w_framerate = framerate w,
           w_frames = map (le_bytes (calcsize k)) (take N ys)\<rparr>"
    by (simp add: decode_def dp rec N_def)
  have lw: "length (map (le_bytes (calcsize k)) (take N ys)) = N"
    using gt by simp
  from rec ly gt k dc lw show ?thesis
    unfolding N_def rate_def
    by (intro exI [of _ ys] exI [of _ k]
          exI [of _ "\<lparr>w_nchannels = nchannels w, w_sampwidth = sampwidth w,
                       w_framerate = framerate w,
                       w_frames = map (le_bytes (calcsize k))
                                    (take (nframes w * nchannels w) ys)\<rparr>"]
          conjI) simp_all
qed

text \<open>
  The theorem on a stream of two 16-bit samples at 200 Hz with the saturated network:
  four values are reconstructed, two are written.
\<close>

theorem decode_writes_all_samples_witness:
  "\<exists>out. round_trip binary32 saturated_fit
            \<lparr>nchannels = 1, nframes = 2, sampwidth = 2, framerate = 200,
             frames_data = [1, 2, 255, 255]\<rparr> = Inr out
         \<and> length (w_frames out) = 2"
proof -
  let ?w = "\<lparr>nchannels = 1, nframes = 2, sampwidth = 2, framerate = 200,
             frames_data = [1, 2, 255, 255]\<rparr>"
  let ?c = "\<lparr>data = [[], []], params = [1, 2, 2, 200]\<rparr>"
  let ?dec = "map (\<lambda>z :: float list. replicate 2 (1 :: float))"
  have e: "encode_inputs ?w = Inr ([[33281 / 65536, 32767 / 65536], [0, 0]], 2, [1, 2, 2, 200])"
    by code_simp
  have enc: "encode saturated_fit ?w = Inr (?c, ?dec)"
    unfolding encode_def e saturated_fit_def by simp
  have net: "\<forall>r xs m. saturated_fit r xs = Inr m \<longrightarrow>
                length (decoder m (encoder m xs)) = length xs
                \<and> (\<forall>row \<in> set (decoder m (encoder m xs)). length row = r)"
    by (auto simp: saturated_fit_def)
  have width: "sampwidth ?w \<in> {2, 4}" and chans: "1 \<le> nchannels ?w"
    by simp_all
  have hdr: "header_fits (nchannels ?w) (sampwidth ?w) (framerate ?w)
               (nframes ?w * nchannels ?w * sampwidth ?w)"
    by (simp add: header_fits_def fits_unsigned_def)
  from decode_writes_all_samples [OF enc net width chans hdr, of binary32]
  obtain out where d: "decode binary32 ?c ?dec = Inr out"
    and l: "length (w_frames out) = nframes ?w * nchannels ?w"
    by (elim exE conjE)
  have "round_trip binary32 saturated_fit ?w = Inr out"
    unfolding round_trip_def enc using d by simp
  moreover from l have "length (w_frames out) = 2" by simp
  ultimately show ?thesis by (intro exI [of _ out] conjI)
qed

text \<open>
  Claim C2 as stated (for every decode) fails for width 1. A one-sample stream of width 1
  is read and framed, the saturated decoder returns \<open>1.0\<close>, which is clamped to \<open>32767\<close>;
  packing it as a signed byte raises, so the write stops before its first sample: no
  sample value reaches the output.
\<close>

theorem decode_write_aborts_counterexample:
  "encode_inputs
     \<lparr>nchannels = 1, nframes = 1, sampwidth = 1, framerate = 100, frames_data = [0]\<rparr>
   = Inr ([[1 / 2], [0]], 1, [1, 1, 1, 100])
   \<and> round_trip binary32 saturated_fit
     \<lparr>nchannels = 1, nframes = 1, sampwidth = 1, framerate = 100, frames_data = [0]\<rparr>
   = Inl StructError"
  by code_simp

section \<open>C3: the quantization bound\<close>

text \<open>
  Claim C3. For samples \<open>s\<close> with \<open>-32768 \<le> s \<le> 32767\<close>, the forward rescaling followed,
  with the rescaled value passed through unchanged, by the inverse rescaling, the
  conversion to integers and the clamp gives one value per sample, and it differs from
  \<open>s\<close> by at most 1. The precision \<open>p\<close> of the inverse arithmetic is any of at least 17
  bits, which covers 32-bit and 64-bit floats.
\<close>

theorem quantization_bound:
  assumes "\<forall>s \<in> set xs. - 32768 \<le> s \<and> s \<le> 32767" and "17 \<le> p"
  shows "length (map norm_clamp (descale p (rescale xs))) = length xs
       \<and> (\<forall>i < length xs. \<bar>map norm_clamp (descale p (rescale xs)) ! i - xs ! i\<bar> \<le> 1)"
proof -
  have "map norm_clamp (descale p (rescale xs)) = xs"
    by (rule roundtrip_exact [OF assms])
  then show ?thesis by simp
qed

text \<open>
  The theorem on five samples that include both ends of the range, at the precision of
  32-bit floats.
\<close>

theorem quantization_bound_witness:
  "length (map norm_clamp (descale binary32 (rescale [- 32768, - 1, 0, 12345, 32767]))) = 5
   \<and> \<bar>map norm_clamp (descale binary32 (rescale [- 32768, - 1, 0, 12345, 32767])) ! 3 - 12345\<bar> \<le> 1"
proof -
  let ?xs = "[- 32768, - 1, 0, 12345, 32767 :: int]"
  let ?ys = "map norm_clamp (descale binary32 (rescale ?xs))"
  have h: "\<forall>s \<in> set ?xs. - 32768 \<le> s \<and> s \<le> 32767"
    by simp
  have p: "17 \<le> binary32" by (simp add: binary32_def)
  from quantization_bound [OF h p]
  have l: "length ?ys = length ?xs" and b: "\<forall>i < length ?xs. \<bar>?ys ! i - ?xs ! i\<bar> \<le> 1"
    by blast+
  have "(3::nat) < length ?xs" by simp
  with b have "\<bar>?ys ! 3 - ?xs ! 3\<bar> \<le> 1" by blast
  moreover have "?xs ! 3 = 12345" by simp
  moreover have "length ?xs = 5" by simp
  ultimately show ?thesis using l by (simp only:) 
qed

section \<open>C4: the inverse rescaling drops the fraction\<close>

text \<open>
  Claim C4, as amended. For a rescaled value \<open>f\<close> with \<open>0 \<le> f \<le> 1\<close> the inverse computes
  \<open>v = (f * 2.0 - 1.0) * 32768.0\<close> in float arithmetic and converts it to the integer \<open>t\<close>
  obtained by dropping the fraction of \<open>v\<close>, that is by rounding towards zero: \<open>t\<close> has
  the sign of \<open>v\<close> and \<open>\<bar>t\<bar> \<le> \<bar>v\<bar> < \<bar>t\<bar> + 1\<close>. Then it clamps: a \<open>t\<close> below \<open>-32768\<close>
  becomes \<open>-32768\<close>, one above \<open>32767\<close> becomes \<open>32767\<close>, any other is unchanged.
\<close>

theorem inverse_truncates:
  assumes "0 \<le> f" and "f \<le> 1"
  shows "\<exists>t. \<bar>of_int t\<bar> \<le> \<bar>fmul p (fsub p (fmul p f 2) 1) 32768\<bar>
           \<and> \<bar>fmul p (fsub p (fmul p f 2) 1) 32768\<bar> < \<bar>of_int t\<bar> + 1
           \<and> 0 \<le> of_int t * fmul p (fsub p (fmul p f 2) 1) 32768
           \<and> map norm_clamp (descale p [f]) =
               [if t < - 32768 then - 32768 else if 32767 < t then 32767 else t]"
proof -
  let ?v = "fmul p (fsub p (fmul p f 2) 1) 32768"
  have "map norm_clamp (descale p [f]) =
      [if astype_int ?v < - 32768 then - 32768 else if 32767 < astype_int ?v then 32767 else astype_int ?v]"
    by (simp add: descale_def norm_clamp_def)
  moreover from descale_bound [OF assms, of p] have "\<bar>?v\<bar> < 2 ^ 63"
    by simp
  note astype_int_trunc [OF this]
  ultimately show ?thesis
    by (intro exI [of _ "astype_int ?v"] conjI)
qed

text \<open>The theorem at \<open>f = 131075 / 262144\<close>, where \<open>v = 0.75\<close> and the result is 0.\<close>

theorem inverse_truncates_witness:
  "(0::rat) \<le> 131075 / 262144 \<and> (131075 / 262144 :: rat) \<le> 1
   \<and> fmul binary32 (fsub binary32 (fmul binary32 (131075 / 262144) 2) 1) 32768 = 3 / 4
   \<and> map norm_clamp (descale binary32 [131075 / 262144]) = [0]"
proof -
  have a: "(0::rat) \<le> 131075 / 262144" and b: "(131075 / 262144 :: rat) \<le> 1"
    by simp_all
  have v: "fmul binary32 (fsub binary32 (fmul binary32 (131075 / 262144) 2) 1) 32768 = 3 / 4"
    by code_simp
  from inverse_truncates [OF a b, of binary32]
  obtain t :: int where t: "\<bar>of_int t\<bar> \<le> \<bar>3 / 4 :: rat\<bar>"
    and "\<bar>3 / 4 :: rat\<bar> < \<bar>of_int t\<bar> + 1"
    and "0 \<le> of_int t * (3 / 4 :: rat)"
    and r: "map norm_clamp (descale binary32 [131075 / 262144]) =
               [if t < - 32768 then - 32768 else if 32767 < t then 32767 else t]"
    unfolding v by (elim exE conjE) (rule that)
  from t have "\<bar>of_int t :: rat\<bar> < 1" by simp
  then have "\<bar>t\<bar> < 1" by (simp only: of_int_abs [symmetric] of_int_less_1_iff)
  then have "t = 0" by simp
  with r a b v show ?thesis by simp
qed

text \<open>
  Claim C4 as stated (rounding to the nearest integer) fails at the same value: the
  nearest integer to \<open>0.75\<close> is 1, the program returns 0.
\<close>

theorem inverse_rounding_counterexample:
  "map norm_clamp (descale binary32 [131075 / 262144]) = [0]
   \<and> spec_inverse binary32 (131075 / 262144) = 1"
  by code_simp

section \<open>C5: the order of rescaling and padding\<close>

text \<open>
  Claim C5, as amended. In the encoder the rescaling is applied to the flat integer
  samples first, and the padding is appended to the rescaled sequence afterwards: the
  frames laid end to end are the rescaled samples followed by at least one float zero.
  Every padding position therefore holds \<open>0.0\<close>, which is the rescaled image of the
  sample \<open>-32768\<close>; the image of the sample 0 is \<open>0.5\<close>.
\<close>

theorem padding_after_rescaling:
  assumes "dataFromWave w = Inr (xs, c, n, k, r)"
    and "encode_inputs w = Inr (frames, rate, ps)"
  shows "rate = r div 100 \<and> 0 < rate
       \<and> 0 < rate - length xs mod rate
       \<and> concat frames = rescale xs @ replicate (rate - length xs mod rate) 0
       \<and> (\<forall>i. length xs \<le> i \<and> i < length (concat frames) \<longrightarrow> concat frames ! i = 0)
       \<and> rescale [0] = [1 / 2] \<and> rescale [- 32768] = [0]"
proof -
  from assms(2) obtain ys
    where d: "dataFromWave w = Inr (ys, nchannels w, nframes w, sampwidth w, framerate w)"
      and rate: "rate = framerate w div 100"
      and p: "padAndSplit (rescale ys) rate = Inr frames"
    by (rule encode_inputs_Inr)
  from d assms(1) have ys: "ys = xs" and r: "r = framerate w" by simp_all
  from p have pos: "0 < rate"
    by (rule padAndSplit_Inr(1))
  then have pad: "0 < rate - length xs mod rate"
    by simp
  from p have c: "concat frames = rescale xs @ replicate (rate - length xs mod rate) 0"
    by (simp add: padAndSplit_Inr(4) ys)
  have z: "concat frames ! i = 0" if "length xs \<le> i \<and> i < length (concat frames)" for i
    using that unfolding c by (auto simp: nth_append)
  from rate r pos pad c z rescale_zero rescale_lowest show ?thesis
    by blast
qed

text \<open>The theorem on a stream holding the single 16-bit sample 0, in frames of 2.\<close>

theorem padding_after_rescaling_witness:
  "encode_inputs \<lparr>nchannels = 1, nframes = 1, sampwidth = 2, framerate = 200,
                  frames_data = [0, 0]\<rparr>
     = Inr ([[1 / 2, 0]], 2, [1, 1, 2, 200])
   \<and> concat [[1 / 2, 0 :: rat]] = rescale [0] @ replicate 1 0"
proof -
  let ?w = "\<lparr>nchannels = 1, nframes = 1, sampwidth = 2, framerate = 200,
             frames_data = [0, 0]\<rparr>"
  have d: "dataFromWave ?w = Inr ([0], 1, 1, 2, 200)"
    by code_simp
  have e: "encode_inputs ?w = Inr ([[1 / 2, 0]], 2, [1, 1, 2, 200])"
    by code_simp
  from padding_after_rescaling [OF d e]
  have "concat [[1 / 2, 0 :: rat]] = rescale [0] @ replicate (2 - length [0 :: int] mod 2) 0"
    by (elim conjE)
  moreover have "2 - length [0 :: int] mod 2 = (1::nat)" by simp
  ultimately have "concat [[1 / 2, 0 :: rat]] = rescale [0] @ replicate 1 0"
    by (simp only:)
  with e show ?thesis by (simp only: simp_thms)
qed

text \<open>
  Claim C5 as stated (padding positions hold \<open>0.5\<close>) fails on the same stream: its one
  frame is \<open>[0.5, 0.0]\<close>, the padding position holding \<open>0.0\<close>.
\<close>

theorem padding_value_counterexample:
  "encode_inputs \<lparr>nchannels = 1, nframes = 1, sampwidth = 2, framerate = 200,
                  frames_data = [0, 0]\<rparr>
     = Inr ([[1 / 2, 0]], 2, [1, 1, 2, 200])
   \<and> rescale [0] = [1 / 2]
   \<and> (0::rat) < 1 / 2"
  by code_simp

section \<open>C6: the header values survive encoding and decoding\<close>

text \<open>
  Claim C6. When encoding a stream succeeds, the container holds the stream's channel
  count, frame count, sample width and frame rate, in this order; decoding recovers
  exactly these four values, calls the writer with them, and a completed write carries
  them in its header and consists of \<open>nframes * nchannels\<close> packed samples. The network
  \<open>fit\<close> and the decoding precision \<open>p\<close> are arbitrary.
\<close>

theorem params_round_trip:
  assumes "encode fit w = Inr (c, dec)"
  shows "params c = [nchannels w, nframes w, sampwidth w, framerate w]
       \<and> decode_params c = Inr (nchannels w, nframes w, sampwidth w, framerate w)
       \<and> decode p c dec =
           (case reconstruct p (dec (data c)) of
              Inl e \<Rightarrow> Inl e
            | Inr out \<Rightarrow> dataToWave out (nchannels w) (nframes w) (sampwidth w) (framerate w))
       \<and> (\<forall>out. decode p c dec = Inr out \<longrightarrow>
             w_nchannels out = nchannels w \<and> w_sampwidth out = sampwidth w
             \<and> w_framerate out = framerate w
             \<and> length (w_frames out) = nframes w * nchannels w)"
proof -
  from assms obtain inputs m
    where "encode_inputs w = Inr (inputs, framerate w div 100,
                                 [nchannels w, nframes w, sampwidth w, framerate w])"
      and "fit (framerate w div 100) inputs = Inr m"
      and c: "c = \<lparr>data = encoder m inputs,
                    params = [nchannels w, nframes w, sampwidth w, framerate w]\<rparr>"
      and "dec = decoder m"
    by (rule encode_Inr)
  have 1: "params c = [nchannels w, nframes w, sampwidth w, framerate w]"
    by (simp add: c)
  have 2: "decode_params c = Inr (nchannels w, nframes w, sampwidth w, framerate w)"
    by (simp add: decode_params_def np_index_def 1)
  have 3: "decode p c dec =
           (case reconstruct p (dec (data c)) of
              Inl e \<Rightarrow> Inl e
            | Inr out \<Rightarrow> dataToWave out (nchannels w) (nframes w) (sampwidth w) (framerate w))"
    by (simp add: decode_def 2)
  have 4: "w_nchannels out = nchannels w \<and> w_sampwidth out = sampwidth w
             \<and> w_framerate out = framerate w
             \<and> length (w_frames out) = nframes w * nchannels w"
    if "decode p c dec = Inr out" for out
  proof -
    from that obtain ys
      where "dataToWave ys (nchannels w) (nframes w) (sampwidth w) (framerate w) = Inr out"
      unfolding 3 by (auto split: sum.splits)
    from dataToWave_Inr [OF this] show ?thesis by simp
  qed
  from 1 2 3 4 show ?thesis by blast
qed

text \<open>
  The theorem on a stream of two 16-bit samples at 200 Hz, with a network that encodes a
  frame by its first quarter and decodes every row to a frame of halves.
\<close>

theorem params_round_trip_witness:
  "decode_params \<lparr>data = [[], []], params = [1, 2, 2, 200]\<rparr> = Inr (1, 2, 2, 200)
   \<and> decode binary32 \<lparr>data = [[], []], params = [1, 2, 2, 200]\<rparr>
         (map (\<lambda>z. replicate 2 (1 / 2)))
       = dataToWave [0, 0, 0, 0] 1 2 2 200"
proof -
  let ?w = "\<lparr>nchannels = 1, nframes = 2, sampwidth = 2, framerate = 200,
             frames_data = [1, 2, 255, 255]\<rparr>"
  let ?fit = "\<lambda>r (xs :: float list list).
     (Inr \<lparr>encoder = map (\<lambda>row. take (r div 4) row),
           decoder = map (\<lambda>z. replicate r (1 / 2))\<rparr> :: error + autoencoder)"
  let ?c = "\<lparr>data = [[], []], params = [1, 2, 2, 200]\<rparr>"
  let ?dec = "map (\<lambda>z :: float list. replicate 2 (1 / 2 :: float))"
  have e: "encode_inputs ?w = Inr ([[33281 / 65536, 32767 / 65536], [0, 0]], 2, [1, 2, 2, 200])"
    by code_simp
  have enc: "encode ?fit ?w = Inr (?c, ?dec)"
    unfolding encode_def e by simp
  have r: "reconstruct binary32 (?dec (data ?c)) = Inr [0, 0, 0, 0]"
    by code_simp
  note t = params_round_trip [OF enc, of binary32]
  from t have a: "decode_params ?c = Inr (nchannels ?w, nframes ?w, sampwidth ?w, framerate ?w)"
    by (elim conjE)
  from t have b: "decode binary32 ?c ?dec =
           (case reconstruct binary32 (?dec (data ?c)) of
              Inl e \<Rightarrow> Inl e
            | Inr out \<Rightarrow> dataToWave out (nchannels ?w) (nframes ?w) (sampwidth ?w) (framerate ?w))"
    by (elim conjE)
  have hd: "nchannels ?w = 1" "nframes ?w = 2" "sampwidth ?w = 2" "framerate ?w = 200"
    by simp_all
  from a have a': "decode_params ?c = Inr (1, 2, 2, 200)"
    by (simp only: hd)
  from b have b': "decode binary32 ?c ?dec = dataToWave [0, 0, 0, 0] 1 2 2 200"
    by (simp only: r hd sum.case)
  from a' b' show ?thesis by (rule conjI)
qed

section \<open>C7: reading samples\<close>

text \<open>
  Claim C7. For the widths 1, 2, 4 and 8 the reader unpacks the whole data with the
  signed little-endian format of that size; this part of the claim holds (lemma
  \<open>dataFromWave_other_widths\<close>). For width 3 the source sets out to do what the claim says:
  it reads frame by frame, adjoins a zero byte in front of every three bytes, unpacks
  32-bit integers and shifts them right by 8. But it starts the accumulator as the text
  \<^verbatim>\<open>''\<close> and adjoins the text \<^verbatim>\<open>'\\0'\<close> to the bytes that \<^verbatim>\<open>readframes\<close> returns, and a text and
  a byte string do not concatenate. So no stream of width 3 is read: the first sample
  raises (\<^verbatim>\<open>TypeError\<close> at the concatenation of line 32), and a stream without a
  sample raises when the text \<^verbatim>\<open>''\<close> is handed to the unpacking. The code does not
  produce the sign-extended values of the claim.
\<close>

theorem width3_read_raises:
  assumes "sampwidth w = 3"
  shows "dataFromWave w = Inl TypeError"
proof -
  from read_width3_text [of w "nframes w" "frames_data w" "[]"]
  show ?thesis
  proof
    assume "read_width3 w (nframes w) (frames_data w) (Str []) = Inl TypeError"
    then show ?thesis
      by (simp add: dataFromWave_def Let_def assms)
  next
    assume "read_width3 w (nframes w) (frames_data w) (Str []) = Inr (Str [])"
    then show ?thesis
      by (simp add: dataFromWave_def Let_def assms fmt_of_width_def struct_unpack_def)
  qed
qed

text \<open>
  The theorem on a mono stream of width 3 with the one sample \<open>0x030201\<close>, for which the
  claim gives the value 197121.
\<close>

theorem width3_read_raises_witness:
  "dataFromWave \<lparr>nchannels = 1, nframes = 1, sampwidth = 3, framerate = 100,
                 frames_data = [1, 2, 3]\<rparr> = Inl TypeError"
proof -
  have "sampwidth \<lparr>nchannels = 1, nframes = 1, sampwidth = 3, framerate = 100,
                 frames_data = [1, 2, 3 :: byte]\<rparr> = 3"
    by simp
  then show ?thesis by (rule width3_read_raises)
qed

section \<open>C8: writing samples of width 3\<close>




section \<open>C9: the range of the rescaled frames\<close>

text \<open>
  Claim C9, as amended. For every input stream whose samples all lie in
  \<open>[-32768, 32767]\<close>, every value of every frame handed to the network lies in \<open>[0, 1]\<close>.
\<close>

theorem rescaled_frames_unit_interval:
  assumes "dataFromWave w = Inr (xs, c, n, k, r)"
    and "\<forall>s \<in> set xs. - 32768 \<le> s \<and> s \<le> 32767"
    and "encode_inputs w = Inr (frames, rate, ps)"
  shows "\<forall>fr \<in> set frames. \<forall>v \<in> set fr. 0 \<le> v \<and> v \<le> 1"
proof (intro ballI)
  fix fr v assume fr: "fr \<in> set frames" and v: "v \<in> set fr"
  from assms(3) obtain ys where d: "dataFromWave w = Inr (ys, nchannels w, nframes w, sampwidth w, framerate w)"
    and p: "padAndSplit (rescale ys) rate = Inr frames"
    by (rule encode_inputs_Inr)
  from d assms(1) have "ys = xs" by simp
  with p have c: "concat frames = rescale xs @ replicate (rate - length (rescale xs) mod rate) 0"
    by (simp only: padAndSplit_Inr(4))
  from fr v have "v \<in> set (concat frames)" by auto
  then have "v \<in> set (rescale xs) \<or> v = 0"
    unfolding c by auto
  with rescale_unit_interval [OF assms(2)] show "0 \<le> v \<and> v \<le> 1"
    by auto
qed

text \<open>The theorem on a stream of two 16-bit samples, 513 and -1.\<close>

theorem rescaled_frames_unit_interval_witness:
  "encode_inputs \<lparr>nchannels = 1, nframes = 2, sampwidth = 2, framerate = 200,
                  frames_data = [1, 2, 255, 255]\<rparr>
     = Inr ([[33281 / 65536, 32767 / 65536], [0, 0]], 2, [1, 2, 2, 200])
   \<and> (0::rat) \<le> 33281 / 65536 \<and> (33281 / 65536 :: rat) \<le> 1"
proof -
  let ?w = "\<lparr>nchannels = 1, nframes = 2, sampwidth = 2, framerate = 200,
             frames_data = [1, 2, 255, 255]\<rparr>"
  have d: "dataFromWave ?w = Inr ([513, - 1], 1, 2, 2, 200)"
    by code_simp
  have h: "\<forall>s \<in> set [513, - 1 :: int]. - 32768 \<le> s \<and> s \<le> 32767"
    by simp
  have e: "encode_inputs ?w = Inr ([[33281 / 65536, 32767 / 65536], [0, 0]], 2, [1, 2, 2, 200])"
    by code_simp
  have "\<forall>fr \<in> set [[33281 / 65536, 32767 / 65536], [0, 0 :: rat]]. \<forall>v \<in> set fr. 0 \<le> v \<and> v \<le> 1"
    by (rule rescaled_frames_unit_interval [OF d h e])
  then have "(0::rat) \<le> 33281 / 65536 \<and> (33281 / 65536 :: rat) \<le> 1"
    by simp
  with e show ?thesis by (simp only: simp_thms)
qed

text \<open>
  Claim C9 as stated (for every stream) fails for a stream of width 4 holding the sample
  65536: its rescaled value is \<open>1.5\<close>.
\<close>

theorem rescale_range_counterexample:
  "encode_inputs \<lparr>nchannels = 1, nframes = 1, sampwidth = 4, framerate = 100,
                  frames_data = [0, 0, 1, 0]\<rparr>
     = Inr ([[3 / 2], [0]], 1, [1, 1, 4, 100])
   \<and> (1::rat) < 3 / 2"
  by code_simp

section \<open>C10: the clamp and the width of the output\<close>

text \<open>
  Claim C10. The clamp bounds every value to \<open>[-32768, 32767]\<close> whatever the sample
  width, and the writer packs with the format chosen by the width. For width 1 the
  format is the signed byte; the decoder output \<open>f = 1\<close>, a value in \<open>[0, 1]\<close>, is rescaled
  and clamped to \<open>32767\<close>, which is above 127: packing it fails, and so does the whole
  decode of a width-1 container with that output, while the same output written with
  width 2 succeeds.
\<close>

theorem clamp_exceeds_byte_format:
  "(\<forall>x. - 32768 \<le> norm_clamp x \<and> norm_clamp x \<le> 32767)
   \<and> fmt_of_width 1 = Some Fmt_b
   \<and> (\<exists>f t. 0 \<le> f \<and> f \<le> 1
          \<and> map norm_clamp (descale binary32 [f]) = [t]
          \<and> 127 < t
          \<and> struct_pack Fmt_b t = Inl StructError
          \<and> decode binary32 \<lparr>data = [[]], params = [1, 1, 1, 100]\<rparr> (\<lambda>rows. [[f]])
                = Inl StructError
          \<and> decode binary32 \<lparr>data = [[]], params = [1, 1, 2, 100]\<rparr> (\<lambda>rows. [[f]])
                = Inr \<lparr>w_nchannels = 1, w_sampwidth = 2, w_framerate = 100,
                       w_frames = [[255, 127]]\<rparr>)"
proof (intro conjI)
  show "\<forall>x. - 32768 \<le> norm_clamp x \<and> norm_clamp x \<le> 32767"
    by (simp add: norm_clamp_def)
  show "fmt_of_width 1 = Some Fmt_b"
    by (simp add: fmt_of_width_def)
  show "\<exists>f t. 0 \<le> f \<and> f \<le> 1
          \<and> map norm_clamp (descale binary32 [f]) = [t]
          \<and> 127 < t
          \<and> struct_pack Fmt_b t = Inl StructError
          \<and> decode binary32 \<lparr>data = [[]], params = [1, 1, 1, 100]\<rparr> (\<lambda>rows. [[f]])
                = Inl StructError
          \<and> decode binary32 \<lparr>data = [[]], params = [1, 1, 2, 100]\<rparr> (\<lambda>rows. [[f]])
                = Inr \<lparr>w_nchannels = 1, w_sampwidth = 2, w_framerate = 100,
                       w_frames = [[255, 127]]\<rparr>"
  proof (rule exI [of _ 1], rule exI [of _ 32767], intro conjI)
    show "(0::rat) \<le> 1" and "(1::rat) \<le> 1" and "(127::int) < 32767"
      by simp_all
    show "map norm_clamp (descale binary32 [1]) = [32767]"
      by code_simp
    show "struct_pack Fmt_b 32767 = Inl StructError"
      by code_simp
    show "decode binary32 \<lparr>data = [[]], params = [1, 1, 1, 100]\<rparr> (\<lambda>rows. [[1]])
            = Inl StructError"
      by code_simp
    show "decode binary32 \<lparr>data = [[]], params = [1, 1, 2, 100]\<rparr> (\<lambda>rows. [[1]])
            = Inr \<lparr>w_nchannels = 1, w_sampwidth = 2, w_framerate = 100,
                   w_frames = [[255, 127]]\<rparr>"
      by code_simp
  qed
qed

end
